theory Spec2Isabelle
  imports Main "HOL-Library.AList"
begin

section \<open>Protocol codec (websocket-protocol.ts)\<close>

text \<open>
  A wire message arrives as text and is handed to \<^verbatim>\<open>JSON.parse\<close>. What the parser
  returns is an arbitrary JSON value; the TypeScript types \<^verbatim>\<open>WebSocketMessage\<close>,
  \<^verbatim>\<open>ClientMessage\<close> and \<^verbatim>\<open>ServerMessage\<close> are erased at run time. The value
  carried by a \<^verbatim>\<open>next\<close> message (\<^verbatim>\<open>value: any\<close>) is modelled by the same type.
\<close>

datatype json =
    JNull
  | JBool bool
  | JNumber int
  | JString string
  | JArray "json list"
  | JObject "(string \<times> json) list"

text \<open>
  The exceptions the code can meet: \<^verbatim>\<open>JSON.parse\<close> throws a SyntaxError, reading a
  property of \<^verbatim>\<open>null\<close> throws a TypeError, and \<^verbatim>\<open>ws.send\<close> (or
  \<^verbatim>\<open>JSON.stringify\<close>) may throw inside \<^verbatim>\<open>sendMessage\<close>.
\<close>

datatype error = SyntaxError | TypeError | SendError

text \<open>
  Reading \<^verbatim>\<open>msg.type\<close> or \<^verbatim>\<open>msg.streamId\<close>: on \<^verbatim>\<open>null\<close> the read throws; on an
  object it yields the property or \<^verbatim>\<open>undefined\<close> (\<open>None\<close>); booleans, numbers,
  strings and arrays have no property of either name, so the read yields \<^verbatim>\<open>undefined\<close>.
\<close>

fun get_prop :: "json \<Rightarrow> string \<Rightarrow> error + json option" where
  "get_prop JNull k = Inl TypeError"
| "get_prop (JObject kvs) k = Inr (map_of kvs k)"
| "get_prop (JBool b) k = Inr None"
| "get_prop (JNumber n) k = Inr None"
| "get_prop (JString s) k = Inr None"
| "get_prop (JArray xs) k = Inr None"

text \<open>
  \<^verbatim>\<open>return msg.type === 'subscribe' || msg.type === 'unsubscribe';\<close>
\<close>

definition isClientMessage :: "json \<Rightarrow> error + bool" where
  "isClientMessage msg =
     (case get_prop msg ''type'' of
        Inl err \<Rightarrow> Inl err
      | Inr t \<Rightarrow> Inr (t = Some (JString ''subscribe'') \<or> t = Some (JString ''unsubscribe'')))"

text \<open>
  \<^verbatim>\<open>return !isClientMessage(msg);\<close>
\<close>

definition isServerMessage :: "json \<Rightarrow> error + bool" where
  "isServerMessage msg =
     (case isClientMessage msg of
        Inl err \<Rightarrow> Inl err
      | Inr b \<Rightarrow> Inr (\<not> b))"

text \<open>The frames the relay puts on the wire, one constructor per server message shape.
  The last component of each is the \<^verbatim>\<open>timestamp\<close>; a stream-list entry is
  \<^verbatim>\<open>{streamId, name, description, active}\<close>.\<close>

datatype frame =
    NextMessage string json nat
  | ErrorMessage string string nat
  | CompleteMessage string nat
  | StreamInfoMessage string string "string option" nat
  | StreamsListMessage nat "(string \<times> string \<times> string option \<times> bool) list"

section \<open>The relay (websocket-server-bridge.ts)\<close>

subsection \<open>Data\<close>

text \<open>
  Connections, \<^verbatim>\<open>Subscription\<close> objects, inner \<^verbatim>\<open>Map\<close> objects and observables are
  JavaScript objects compared by reference; each is identified by a number.
\<close>

type_synonym conn = nat
type_synonym subref = nat
type_synonym mapref = nat
type_synonym obsref = nat

record StreamConfig =
  streamId :: string
  name :: string
  description :: "string option"
  observable :: obsref

text \<open>
  What a producer can push into the observer that \<^verbatim>\<open>handleSubscribe\<close> hands to it.
  The argument of an error notification is the text \<^verbatim>\<open>error.toString()\<close> returns, or
  \<open>None\<close> when the error value is \<^verbatim>\<open>null\<close> or \<^verbatim>\<open>undefined\<close> and the call throws.
\<close>

datatype notification =
    NextEv json
  | ErrorEv "string option"
  | CompleteEv

text \<open>
  One \<^verbatim>\<open>Subscription\<close> returned by \<^verbatim>\<open>observable.subscribe\<close>, together with what the
  three closures of \<^verbatim>\<open>handleSubscribe\<close> captured: the connection \<^verbatim>\<open>ws\<close>, the
  \<^verbatim>\<open>streamId\<close> and the inner map \<^verbatim>\<open>streamSubs\<close> (by reference). \<open>sub_closed\<close> is the
  subscription's \<^verbatim>\<open>closed\<close> flag: set by \<^verbatim>\<open>unsubscribe()\<close> and by a terminal
  notification, after which the observer is never called again.
\<close>

record subscriber =
  sub_ws :: conn
  sub_streamId :: string
  sub_streamSubs :: mapref
  sub_closed :: bool

text \<open>
  The relay's three fields, the two object stores they point into, and the frames that
  reached \<^verbatim>\<open>ws.send\<close> without an exception, oldest first. The JavaScript \<^verbatim>\<open>Map\<close>s
  and the \<^verbatim>\<open>Set\<close> iterate in insertion order, so they are association lists and a
  list. \<open>map_objs ! r\<close> is the inner map with reference \<open>r\<close>, \<open>sub_objs ! k\<close> the
  subscription with reference \<open>k\<close>; both stores only grow.
\<close>

record bridge =
  streams :: "(string \<times> StreamConfig) list"
  subscriptions :: "(string \<times> mapref) list"
  connections :: "conn list"
  map_objs :: "(conn \<times> subref) list list"
  sub_objs :: "subscriber list"
  wire :: "(conn \<times> frame) list"

text \<open>
  What the relay reads from outside during one synchronous call: each connection's
  \<^verbatim>\<open>readyState\<close>, whether \<^verbatim>\<open>ws.send(JSON.stringify(message))\<close> throws for a
  connection and frame, \<^verbatim>\<open>Date.now()\<close>, and the notifications an observable pushes
  synchronously, before \<^verbatim>\<open>subscribe\<close> returns, when it is subscribed to now.
\<close>

record env =
  readyState :: "conn \<Rightarrow> int"
  send_throws :: "conn \<Rightarrow> frame \<Rightarrow> bool"
  now :: nat
  emits :: "obsref \<Rightarrow> notification list"

definition init :: bridge where
  "init = \<lparr>streams = [], subscriptions = [], connections = [], map_objs = [],
            sub_objs = [], wire = []\<rparr>"

subsection \<open>Object stores\<close>

definition get_map :: "bridge \<Rightarrow> mapref \<Rightarrow> (conn \<times> subref) list" where
  "get_map st r = (if r < length (map_objs st) then map_objs st ! r else [])"

text \<open>\<^verbatim>\<open>streamSubs.set(ws, subscription)\<close> and \<^verbatim>\<open>streamSubs.delete(ws)\<close>.\<close>

definition map_set :: "mapref \<Rightarrow> conn \<Rightarrow> subref \<Rightarrow> bridge \<Rightarrow> bridge" where
  "map_set r ws k st =
     (if r < length (map_objs st)
      then st\<lparr>map_objs := (map_objs st)[r := AList.update ws k (map_objs st ! r)]\<rparr>
      else st)"

definition map_delete :: "mapref \<Rightarrow> conn \<Rightarrow> bridge \<Rightarrow> bridge" where
  "map_delete r ws st =
     (if r < length (map_objs st)
      then st\<lparr>map_objs := (map_objs st)[r := AList.delete ws (map_objs st ! r)]\<rparr>
      else st)"

text \<open>\<^verbatim>\<open>sub.unsubscribe()\<close>: closes the subscription; idempotent.\<close>

definition unsubscribe :: "subref \<Rightarrow> bridge \<Rightarrow> bridge" where
  "unsubscribe k st =
     (if k < length (sub_objs st)
      then st\<lparr>sub_objs := (sub_objs st)[k := (sub_objs st ! k)\<lparr>sub_closed := True\<rparr>]\<rparr>
      else st)"

definition is_closed :: "bridge \<Rightarrow> subref \<Rightarrow> bool" where
  "is_closed st k = (k < length (sub_objs st) \<and> sub_closed (sub_objs st ! k))"

definition is_live :: "bridge \<Rightarrow> subref \<Rightarrow> bool" where
  "is_live st k = (k < length (sub_objs st) \<and> \<not> sub_closed (sub_objs st ! k))"

text \<open>\<^verbatim>\<open>this.connections.add(ws)\<close>: a new element goes last, a known one keeps its place.\<close>

definition set_add :: "conn \<Rightarrow> conn list \<Rightarrow> conn list" where
  "set_add ws cs = (if ws \<in> set cs then cs else cs @ [ws])"

subsection \<open>Sending\<close>

definition ws_send :: "env \<Rightarrow> conn \<Rightarrow> frame \<Rightarrow> bridge \<Rightarrow> error + bridge" where
  "ws_send e ws message st =
     (if send_throws e ws message then Inl SendError
      else Inr (st\<lparr>wire := wire st @ [(ws, message)]\<rparr>))"

text \<open>
  \<^verbatim>\<open>if (ws.readyState === 1) { try { ws.send(JSON.stringify(message)); } catch (error) { ... } }\<close>
\<close>

definition sendMessage :: "env \<Rightarrow> conn \<Rightarrow> frame \<Rightarrow> bridge \<Rightarrow> bridge" where
  "sendMessage e ws message st =
     (if readyState e ws = 1 then
        (case ws_send e ws message st of
           Inr st' \<Rightarrow> st'
         | Inl err \<Rightarrow> st)
      else st)"

definition streams_list :: "env \<Rightarrow> bridge \<Rightarrow> frame" where
  "streams_list e st =
     StreamsListMessage (now e)
       (map (\<lambda>(sid, config). (sid, name config, description config, True)) (streams st))"

definition sendStreamsList :: "env \<Rightarrow> conn \<Rightarrow> bridge \<Rightarrow> bridge" where
  "sendStreamsList e ws st = sendMessage e ws (streams_list e st) st"

definition broadcastStreamsList :: "env \<Rightarrow> bridge \<Rightarrow> bridge" where
  "broadcastStreamsList e st = fold (sendStreamsList e) (connections st) st"

subsection \<open>Public operations on streams and connections\<close>

text \<open>
  \<^verbatim>\<open>this.streams.set(config.streamId, config);
  this.subscriptions.set(config.streamId, new Map());
  this.broadcastStreamsList();\<close>
  The new inner map is a fresh object; the one the stream had before, if any, stays in the
  store, referenced only by the closures of the subscriptions made through it.
\<close>

definition registerStream :: "env \<Rightarrow> StreamConfig \<Rightarrow> bridge \<Rightarrow> bridge" where
  "registerStream e config st =
     broadcastStreamsList e
       (st\<lparr>streams := AList.update (streamId config) config (streams st),
           subscriptions :=
             AList.update (streamId config) (length (map_objs st)) (subscriptions st),
           map_objs := map_objs st @ [[]]\<rparr>)"

definition unregisterStream :: "env \<Rightarrow> string \<Rightarrow> bridge \<Rightarrow> bridge" where
  "unregisterStream e sid st =
     (let st1 = (case map_of (subscriptions st) sid of
                   Some streamSubs \<Rightarrow>
                     (fold (\<lambda>(ws, sub). unsubscribe sub) (get_map st streamSubs) st)
                       \<lparr>subscriptions := AList.delete sid (subscriptions st)\<rparr>
                 | None \<Rightarrow> st);
          st2 = st1\<lparr>streams := AList.delete sid (streams st1)\<rparr>
      in broadcastStreamsList e st2)"

definition handleConnection :: "env \<Rightarrow> conn \<Rightarrow> bridge \<Rightarrow> bridge" where
  "handleConnection e ws st =
     sendStreamsList e ws (st\<lparr>connections := set_add ws (connections st)\<rparr>)"

definition disconnect_from :: "conn \<Rightarrow> string \<times> mapref \<Rightarrow> bridge \<Rightarrow> bridge" where
  "disconnect_from ws = (\<lambda>(sid, streamSubs) st.
     (case map_of (get_map st streamSubs) ws of
        Some sub \<Rightarrow> map_delete streamSubs ws (unsubscribe sub st)
      | None \<Rightarrow> st))"

definition handleDisconnection :: "conn \<Rightarrow> bridge \<Rightarrow> bridge" where
  "handleDisconnection ws st =
     fold (disconnect_from ws) (subscriptions st)
       (st\<lparr>connections := removeAll ws (connections st)\<rparr>)"

subsection \<open>Subscribe and unsubscribe\<close>

text \<open>
  The observer of \<^verbatim>\<open>handleSubscribe\<close> receiving one notification through subscription
  \<open>k\<close>. A closed subscription delivers nothing. \<^verbatim>\<open>next\<close> sends a frame. \<^verbatim>\<open>error\<close>
  and \<^verbatim>\<open>complete\<close> send a frame and run \<^verbatim>\<open>streamSubs.delete(ws)\<close> on the captured
  map; the subscription is closed by the notification itself. When \<^verbatim>\<open>error.toString()\<close>
  throws, the handler stops there: nothing is sent and nothing is deleted.
\<close>

definition notify :: "env \<Rightarrow> subref \<Rightarrow> notification \<Rightarrow> bridge \<Rightarrow> bridge" where
  "notify e k ev st =
     (if is_live st k then
        (let s = sub_objs st ! k in
         case ev of
           NextEv v \<Rightarrow> sendMessage e (sub_ws s) (NextMessage (sub_streamId s) v (now e)) st
         | ErrorEv None \<Rightarrow> unsubscribe k st
         | ErrorEv (Some txt) \<Rightarrow>
             unsubscribe k
               (map_delete (sub_streamSubs s) (sub_ws s)
                  (sendMessage e (sub_ws s) (ErrorMessage (sub_streamId s) txt (now e)) st))
         | CompleteEv \<Rightarrow>
             unsubscribe k
               (map_delete (sub_streamSubs s) (sub_ws s)
                  (sendMessage e (sub_ws s) (CompleteMessage (sub_streamId s) (now e)) st)))
      else st)"

text \<open>
  \<^verbatim>\<open>streamConfig.observable.subscribe({next, error, complete})\<close>: a new subscription
  object is created, the producer pushes its synchronous notifications into it, and the
  call returns the subscription.
\<close>

definition observable_subscribe ::
  "env \<Rightarrow> obsref \<Rightarrow> conn \<Rightarrow> string \<Rightarrow> mapref \<Rightarrow> bridge \<Rightarrow> subref \<times> bridge" where
  "observable_subscribe e obs ws sid streamSubs st =
     (let k = length (sub_objs st);
          st1 = st\<lparr>sub_objs := sub_objs st @
                   [\<lparr>sub_ws = ws, sub_streamId = sid, sub_streamSubs = streamSubs,
                     sub_closed = False\<rparr>]\<rparr>
      in (k, fold (notify e k) (emits e obs) st1))"

definition handleSubscribe :: "env \<Rightarrow> conn \<Rightarrow> string \<Rightarrow> bridge \<Rightarrow> bridge" where
  "handleSubscribe e ws sid st =
     (case map_of (streams st) sid of
        None \<Rightarrow> st
      | Some streamConfig \<Rightarrow>
          (case map_of (subscriptions st) sid of
             None \<Rightarrow> st
           | Some streamSubs \<Rightarrow>
               if ws \<in> fst ` set (get_map st streamSubs) then st
               else
                 (let st1 = sendMessage e ws
                              (StreamInfoMessage sid (name streamConfig)
                                 (description streamConfig) (now e)) st;
                      (subscription, st2) =
                        observable_subscribe e (observable streamConfig) ws sid streamSubs st1
                  in map_set streamSubs ws subscription st2)))"

definition handleUnsubscribe :: "conn \<Rightarrow> string \<Rightarrow> bridge \<Rightarrow> bridge" where
  "handleUnsubscribe ws sid st =
     (case map_of (subscriptions st) sid of
        None \<Rightarrow> st
      | Some streamSubs \<Rightarrow>
          (case map_of (get_map st streamSubs) ws of
             Some sub \<Rightarrow> map_delete streamSubs ws (unsubscribe sub st)
           | None \<Rightarrow> st))"

text \<open>
  \<^verbatim>\<open>message.streamId\<close> as a key of the relay's maps. Every key there is a string, so a
  \<^verbatim>\<open>streamId\<close> that is missing or not a string finds nothing.
\<close>

definition streamId_of :: "json \<Rightarrow> string option" where
  "streamId_of message =
     (case get_prop message ''streamId'' of
        Inr (Some (JString sid)) \<Rightarrow> Some sid
      | _ \<Rightarrow> None)"

definition handleClientMessage :: "env \<Rightarrow> conn \<Rightarrow> json \<Rightarrow> bridge \<Rightarrow> bridge" where
  "handleClientMessage e ws message st =
     (case get_prop message ''type'' of
        Inr (Some (JString t)) \<Rightarrow>
          if t = ''subscribe'' then
            (case streamId_of message of
               Some sid \<Rightarrow> handleSubscribe e ws sid st
             | None \<Rightarrow> st)
          else if t = ''unsubscribe'' then
            (case streamId_of message of
               Some sid \<Rightarrow> handleUnsubscribe ws sid st
             | None \<Rightarrow> st)
          else st
      | _ \<Rightarrow> st)"

text \<open>
  The body of the \<^verbatim>\<open>try\<close> block of \<^verbatim>\<open>handleMessage\<close>. \<^verbatim>\<open>JSON.parse\<close> is the
  parameter \<open>parse\<close> (\<open>None\<close> when it throws). Both places that can throw come before
  any change of the relay.
\<close>

definition handleMessage_try ::
  "(string \<Rightarrow> json option) \<Rightarrow> env \<Rightarrow> conn \<Rightarrow> string \<Rightarrow> bridge \<Rightarrow> error + bridge" where
  "handleMessage_try parse e ws message st =
     (case parse message of
        None \<Rightarrow> Inl SyntaxError
      | Some parsed \<Rightarrow>
          (case isClientMessage parsed of
             Inl err \<Rightarrow> Inl err
           | Inr False \<Rightarrow> Inr st
           | Inr True \<Rightarrow> Inr (handleClientMessage e ws parsed st)))"

definition handleMessage ::
  "(string \<Rightarrow> json option) \<Rightarrow> env \<Rightarrow> conn \<Rightarrow> string \<Rightarrow> bridge \<Rightarrow> bridge" where
  "handleMessage parse e ws message st =
     (case handleMessage_try parse e ws message st of
        Inr st' \<Rightarrow> st'
      | Inl err \<Rightarrow> st)"

subsection \<open>Introspection\<close>

definition getStreams :: "bridge \<Rightarrow> (string \<times> StreamConfig) list" where
  "getStreams st = streams st"

definition getSubscriptionCount :: "bridge \<Rightarrow> string \<Rightarrow> nat" where
  "getSubscriptionCount st sid =
     (case map_of (subscriptions st) sid of
        Some streamSubs \<Rightarrow> length (get_map st streamSubs)
      | None \<Rightarrow> 0)"

definition getConnectionCount :: "bridge \<Rightarrow> nat" where
  "getConnectionCount st = length (connections st)"

subsection \<open>Runs of the relay\<close>

text \<open>
  Everything that can happen to a relay: a call of one of its public operations, or a
  producer pushing a notification into one of the subscriptions it handed out. Each event
  comes with the environment it runs in.
\<close>

datatype op =
    RegisterStream StreamConfig
  | UnregisterStream string
  | HandleConnection conn
  | HandleDisconnection conn
  | HandleMessage conn string
  | Notify subref notification

fun step :: "(string \<Rightarrow> json option) \<Rightarrow> env \<times> op \<Rightarrow> bridge \<Rightarrow> bridge" where
  "step parse (e, RegisterStream config) st = registerStream e config st"
| "step parse (e, UnregisterStream sid) st = unregisterStream e sid st"
| "step parse (e, HandleConnection ws) st = handleConnection e ws st"
| "step parse (e, HandleDisconnection ws) st = handleDisconnection ws st"
| "step parse (e, HandleMessage ws message) st = handleMessage parse e ws message st"
| "step parse (e, Notify k ev) st = notify e k ev st"

definition run :: "(string \<Rightarrow> json option) \<Rightarrow> (env \<times> op) list \<Rightarrow> bridge \<Rightarrow> bridge" where
  "run parse tr st = fold (step parse) tr st"

inductive reachable :: "(string \<Rightarrow> json option) \<Rightarrow> bridge \<Rightarrow> bool"
  for parse :: "string \<Rightarrow> json option" where
  reachable_init: "reachable parse init"
| reachable_step: "reachable parse st \<Longrightarrow> reachable parse (step parse ev st)"

section \<open>Notions used to state the properties\<close>

text \<open>A frame passes \<^verbatim>\<open>sendMessage\<close> in environment \<open>e\<close>: its connection is open and
  the send does not throw.\<close>

definition deliverable :: "env \<Rightarrow> conn \<times> frame \<Rightarrow> bool" where
  "deliverable e = (\<lambda>(ws, message). readyState e ws = 1 \<and> \<not> send_throws e ws message)"

text \<open>The frames a transition from \<open>st\<close> to \<open>st'\<close> put on the wire, and the transitions
  that only append frames that passed \<^verbatim>\<open>sendMessage\<close>.\<close>

definition new_frames :: "bridge \<Rightarrow> bridge \<Rightarrow> (conn \<times> frame) list" where
  "new_frames st st' = drop (length (wire st)) (wire st')"

definition sends_ok :: "env \<Rightarrow> bridge \<Rightarrow> bridge \<Rightarrow> bool" where
  "sends_ok e st st' \<longleftrightarrow>
     wire st' = wire st @ new_frames st st' \<and> list_all (deliverable e) (new_frames st st')"

text \<open>The frames one broadcast of the catalog of \<open>st\<close> puts on the wire: the stream list,
  once for each connection of the connection set that is open and whose send succeeds.\<close>

definition broadcast_frames :: "env \<Rightarrow> bridge \<Rightarrow> (conn \<times> frame) list" where
  "broadcast_frames e st =
     filter (deliverable e) (map (\<lambda>ws. (ws, streams_list e st)) (connections st))"

text \<open>The connections recorded in the matrix entry of a stream, and the live
  subscriptions (producer attachments) of a stream and connection.\<close>

definition subscribed :: "bridge \<Rightarrow> string \<Rightarrow> conn set" where
  "subscribed st sid =
     (case map_of (subscriptions st) sid of
        Some streamSubs \<Rightarrow> fst ` set (get_map st streamSubs)
      | None \<Rightarrow> {})"

definition live_subs :: "bridge \<Rightarrow> string \<Rightarrow> conn \<Rightarrow> subref list" where
  "live_subs st sid ws =
     filter (\<lambda>k. sub_streamId (sub_objs st ! k) = sid \<and> sub_ws (sub_objs st ! k) = ws
                 \<and> \<not> sub_closed (sub_objs st ! k))
       [0 ..< length (sub_objs st)]"

text \<open>
  Facts about the stores that hold in every state a relay can reach: every subscription
  reference recorded in an inner map points into the store of subscriptions; the stream
  registry and the subscription matrix have the same keys; and the matrix has one entry
  for each key.
\<close>

definition refs_ok :: "bridge \<Rightarrow> bool" where
  "refs_ok st \<longleftrightarrow> (\<forall>m \<in> set (map_objs st). \<forall>x \<in> set m. snd x < length (sub_objs st))"

definition consistent :: "bridge \<Rightarrow> bool" where
  "consistent st \<longleftrightarrow>
     fst ` set (streams st) = fst ` set (subscriptions st)
     \<and> distinct (map fst (subscriptions st))
     \<and> refs_ok st"

section \<open>Concrete runs\<close>

text \<open>
  The inputs of the examples below. \<open>sample_parse\<close> is \<^verbatim>\<open>JSON.parse\<close> on the four
  texts the examples use: a subscribe and an unsubscribe request for stream \<^verbatim>\<open>s\<close>, a
  server-typed message, and a text that is not JSON. No example parses any other text.
\<close>

definition subscribe_text :: string where
  \<open>subscribe_text = ''{"type":"subscribe","streamId":"s"}''\<close>

definition unsubscribe_text :: string where
  \<open>unsubscribe_text = ''{"type":"unsubscribe","streamId":"s"}''\<close>

definition next_text :: string where
  \<open>next_text = ''{"type":"next","streamId":"s","value":1}''\<close>

definition bad_text :: string where
  \<open>bad_text = ''{not json''\<close>

definition sample_parse :: "string \<Rightarrow> json option" where
  "sample_parse txt =
     (if txt = subscribe_text then
        Some (JObject [(''type'', JString ''subscribe''), (''streamId'', JString ''s'')])
      else if txt = unsubscribe_text then
        Some (JObject [(''type'', JString ''unsubscribe''), (''streamId'', JString ''s'')])
      else if txt = next_text then
        Some (JObject [(''type'', JString ''next''), (''streamId'', JString ''s''),
                       (''value'', JNumber 1)])
      else None)"

text \<open>Stream \<^verbatim>\<open>s\<close>, backed by observable 0.\<close>

definition cfg_s :: StreamConfig where
  "cfg_s = \<lparr>streamId = ''s'', name = ''S'', description = None, observable = 0\<rparr>"

text \<open>
  Five environments. In \<open>env_open\<close> every connection is open, no send throws and no
  observable pushes anything while it is being subscribed to. \<open>env_sync\<close> differs in
  that every observable pushes one value and completes before \<^verbatim>\<open>subscribe\<close> returns
  (as \<^verbatim>\<open>of(1)\<close> does), and \<open>env_values\<close> in that every observable pushes two values
  and stays open. In \<open>env_connecting\<close> every connection has \<^verbatim>\<open>readyState\<close> 0
  (not open yet), in \<open>env_closed\<close> 3.
\<close>

definition env_open :: env where
  "env_open = \<lparr>readyState = (\<lambda>ws. 1), send_throws = (\<lambda>ws message. False), now = 0,
                emits = (\<lambda>obs. [])\<rparr>"

definition env_sync :: env where
  "env_sync = \<lparr>readyState = (\<lambda>ws. 1), send_throws = (\<lambda>ws message. False), now = 0,
                emits = (\<lambda>obs. [NextEv (JNumber 1), CompleteEv])\<rparr>"

definition env_values :: env where
  "env_values = \<lparr>readyState = (\<lambda>ws. 1), send_throws = (\<lambda>ws message. False), now = 0,
                  emits = (\<lambda>obs. [NextEv (JNumber 1), NextEv (JNumber 2)])\<rparr>"

definition env_connecting :: env where
  "env_connecting = \<lparr>readyState = (\<lambda>ws. 0), send_throws = (\<lambda>ws message. False), now = 0,
                      emits = (\<lambda>obs. [])\<rparr>"

definition env_closed :: env where
  "env_closed = \<lparr>readyState = (\<lambda>ws. 3), send_throws = (\<lambda>ws message. False), now = 0,
                  emits = (\<lambda>obs. [])\<rparr>"

text \<open>
  Two runs of a new relay. In \<open>subscribed_run\<close> stream \<^verbatim>\<open>s\<close> is registered,
  connection 1 connects and subscribes to it. \<open>reregistered_run\<close> goes on with a second
  \<^verbatim>\<open>registerStream\<close> for the same id.
\<close>

definition subscribed_run :: "(env \<times> op) list" where
  "subscribed_run =
     [(env_open, RegisterStream cfg_s), (env_open, HandleConnection 1),
      (env_open, HandleMessage 1 subscribe_text)]"

definition reregistered_run :: "(env \<times> op) list" where
  "reregistered_run = subscribed_run @ [(env_open, RegisterStream cfg_s)]"

section \<open>Sending changes the wire only\<close>

lemma sendMessage_eq:
  "sendMessage e ws message st =
     st\<lparr>wire := wire st @ filter (deliverable e) [(ws, message)]\<rparr>"
  by (simp add: sendMessage_def ws_send_def deliverable_def)

lemma streams_list_wire [simp]: "streams_list e (st\<lparr>wire := w\<rparr>) = streams_list e st"
  by (simp add: streams_list_def)

lemma fold_sendStreamsList:
  "fold (sendStreamsList e) cs st =
     st\<lparr>wire := wire st @ filter (deliverable e) (map (\<lambda>ws. (ws, streams_list e st)) cs)\<rparr>"
  by (induction cs arbitrary: st) (simp_all add: sendStreamsList_def sendMessage_eq)

lemma broadcastStreamsList_eq:
  "broadcastStreamsList e st =
     st\<lparr>wire := wire st @
           filter (deliverable e) (map (\<lambda>ws. (ws, streams_list e st)) (connections st))\<rparr>"
  by (simp add: broadcastStreamsList_def fold_sendStreamsList)

lemma unsubscribe_subscriptions [simp]: "subscriptions (unsubscribe k st) = subscriptions st"
  by (simp add: unsubscribe_def)

lemma fold_unsubscribe_subscriptions [simp]:
  "subscriptions (fold (\<lambda>(ws, sub). unsubscribe sub) xs st) = subscriptions st"
  by (induction xs arbitrary: st) auto

section \<open>Every operation only appends frames that passed the send check\<close>

lemma sends_okI:
  "wire st' = wire st @ new \<Longrightarrow> list_all (deliverable e) new \<Longrightarrow> sends_ok e st st'"
  by (simp add: sends_ok_def new_frames_def)

lemma sends_ok_refl [simp]: "sends_ok e st st"
  by (simp add: sends_ok_def new_frames_def)

lemma sends_ok_same_wire: "wire st' = wire st \<Longrightarrow> sends_ok e st st'"
  by (simp add: sends_ok_def new_frames_def)

lemma sends_ok_trans:
  assumes "sends_ok e st st1" "sends_ok e st1 st2"
  shows "sends_ok e st st2"
proof -
  from assms have "wire st2 = wire st @ (new_frames st st1 @ new_frames st1 st2)"
    by (simp add: sends_ok_def)
  moreover from assms have "list_all (deliverable e) (new_frames st st1 @ new_frames st1 st2)"
    by (simp add: sends_ok_def)
  ultimately show ?thesis by (rule sends_okI)
qed

lemma sends_ok_sendMessage: "sends_ok e st (sendMessage e ws message st)"
  by (rule sends_okI [where new = "filter (deliverable e) [(ws, message)]"])
     (simp_all add: sendMessage_eq)

lemma unsubscribe_wire [simp]: "wire (unsubscribe k st) = wire st"
  by (simp add: unsubscribe_def)

lemma map_delete_wire [simp]: "wire (map_delete r ws st) = wire st"
  by (simp add: map_delete_def)

lemma map_set_wire [simp]: "wire (map_set r ws k st) = wire st"
  by (simp add: map_set_def)

lemma sends_ok_fold:
  assumes "\<And>x s. sends_ok e s (f x s)"
  shows "sends_ok e st (fold f xs st)"
proof (induction xs arbitrary: st)
  case Nil
  show ?case by simp
next
  case (Cons x xs)
  have "sends_ok e st (f x st)" by (rule assms)
  moreover have "sends_ok e (f x st) (fold f xs (f x st))" by (rule Cons.IH)
  ultimately show ?case by (simp add: sends_ok_trans)
qed

lemma sends_ok_notify: "sends_ok e st (notify e k ev st)"
proof (cases "is_live st k")
  case False
  then show ?thesis by (simp add: notify_def)
next
  case True
  show ?thesis
  proof (cases ev)
    case (NextEv v)
    with True show ?thesis by (simp add: notify_def Let_def sends_ok_sendMessage)
  next
    case (ErrorEv err)
    show ?thesis
    proof (cases err)
      case None
      with True ErrorEv show ?thesis by (simp add: notify_def sends_ok_same_wire)
    next
      case (Some t)
      have "sends_ok e (sendMessage e (sub_ws (sub_objs st ! k))
               (ErrorMessage (sub_streamId (sub_objs st ! k)) t (now e)) st)
             (notify e k ev st)"
        using True ErrorEv Some by (simp add: notify_def Let_def sends_ok_same_wire)
      then show ?thesis
        using sends_ok_sendMessage sends_ok_trans by blast
    qed
  next
    case CompleteEv
    have "sends_ok e (sendMessage e (sub_ws (sub_objs st ! k))
             (CompleteMessage (sub_streamId (sub_objs st ! k)) (now e)) st)
           (notify e k ev st)"
      using True CompleteEv by (simp add: notify_def Let_def sends_ok_same_wire)
    then show ?thesis
      using sends_ok_sendMessage sends_ok_trans by blast
  qed
qed

lemma sends_ok_observable_subscribe:
  "sends_ok e st (snd (observable_subscribe e obs ws sid r st))"
proof -
  let ?st1 = "st\<lparr>sub_objs := sub_objs st @
                 [\<lparr>sub_ws = ws, sub_streamId = sid, sub_streamSubs = r, sub_closed = False\<rparr>]\<rparr>"
  have "sends_ok e st ?st1" by (simp add: sends_ok_same_wire)
  moreover have "sends_ok e ?st1 (fold (notify e (length (sub_objs st))) (emits e obs) ?st1)"
    by (rule sends_ok_fold) (rule sends_ok_notify)
  ultimately show ?thesis
    by (simp add: observable_subscribe_def Let_def sends_ok_trans)
qed

lemma sends_ok_handleSubscribe: "sends_ok e st (handleSubscribe e ws sid st)"
proof -
  have step: "sends_ok e st
      (map_set r ws (fst (observable_subscribe e obs ws sid r (sendMessage e ws m st)))
         (snd (observable_subscribe e obs ws sid r (sendMessage e ws m st))))" for r obs m
  proof -
    have "sends_ok e (sendMessage e ws m st)
            (snd (observable_subscribe e obs ws sid r (sendMessage e ws m st)))"
      by (rule sends_ok_observable_subscribe)
    then have "sends_ok e st (snd (observable_subscribe e obs ws sid r (sendMessage e ws m st)))"
      using sends_ok_sendMessage sends_ok_trans by blast
    moreover have "sends_ok e (snd (observable_subscribe e obs ws sid r (sendMessage e ws m st)))
       (map_set r ws (fst (observable_subscribe e obs ws sid r (sendMessage e ws m st)))
         (snd (observable_subscribe e obs ws sid r (sendMessage e ws m st))))"
      by (simp add: sends_ok_same_wire)
    ultimately show ?thesis by (rule sends_ok_trans)
  qed
  show ?thesis
    by (simp add: handleSubscribe_def Let_def split_beta step split: option.splits)
qed

lemma sends_ok_handleUnsubscribe: "sends_ok e st (handleUnsubscribe ws sid st)"
  by (simp add: handleUnsubscribe_def sends_ok_same_wire split: option.splits)

lemma sends_ok_handleClientMessage: "sends_ok e st (handleClientMessage e ws message st)"
  by (simp add: handleClientMessage_def sends_ok_handleSubscribe sends_ok_handleUnsubscribe
      split: sum.splits option.splits json.splits)

lemma sends_ok_handleMessage: "sends_ok e st (handleMessage parse e ws message st)"
  by (simp add: handleMessage_def handleMessage_try_def sends_ok_handleClientMessage
      split: sum.splits option.splits bool.splits)

lemma sends_ok_broadcast: "sends_ok e st (broadcastStreamsList e st)"
  by (rule sends_okI
      [where new = "filter (deliverable e) (map (\<lambda>ws. (ws, streams_list e st)) (connections st))"])
     (simp_all add: broadcastStreamsList_eq list_all_iff)

lemma sends_ok_registerStream: "sends_ok e st (registerStream e config st)"
proof -
  let ?st1 = "st\<lparr>streams := AList.update (streamId config) config (streams st),
           subscriptions :=
             AList.update (streamId config) (length (map_objs st)) (subscriptions st),
           map_objs := map_objs st @ [[]]\<rparr>"
  have "sends_ok e st ?st1" by (simp add: sends_ok_same_wire)
  moreover have "sends_ok e ?st1 (broadcastStreamsList e ?st1)" by (rule sends_ok_broadcast)
  ultimately show ?thesis unfolding registerStream_def by (rule sends_ok_trans)
qed

lemma fold_unsubscribe_wire [simp]:
  "wire (fold (\<lambda>(ws, sub). unsubscribe sub) xs st) = wire st"
  by (induction xs arbitrary: st) auto

lemma sends_ok_unregisterStream: "sends_ok e st (unregisterStream e sid st)"
proof -
  have "sends_ok e st st2 \<Longrightarrow> sends_ok e st (broadcastStreamsList e st2)" for st2
    using sends_ok_broadcast sends_ok_trans by blast
  then show ?thesis
    by (simp add: unregisterStream_def Let_def sends_ok_same_wire split: option.splits)
qed

lemma sends_ok_handleConnection: "sends_ok e st (handleConnection e ws st)"
proof -
  have "sends_ok e st (st\<lparr>connections := set_add ws (connections st)\<rparr>)"
    by (simp add: sends_ok_same_wire)
  moreover have "sends_ok e (st\<lparr>connections := set_add ws (connections st)\<rparr>)
     (sendMessage e ws (streams_list e (st\<lparr>connections := set_add ws (connections st)\<rparr>))
        (st\<lparr>connections := set_add ws (connections st)\<rparr>))"
    by (rule sends_ok_sendMessage)
  ultimately show ?thesis
    unfolding handleConnection_def sendStreamsList_def by (rule sends_ok_trans)
qed

lemma disconnect_from_wire [simp]: "wire (disconnect_from ws x st) = wire st"
  by (cases x) (simp add: disconnect_from_def split: option.splits)

lemma fold_disconnect_from_wire [simp]:
  "wire (fold (disconnect_from ws) xs st) = wire st"
  by (induction xs arbitrary: st) auto

lemma sends_ok_handleDisconnection: "sends_ok e st (handleDisconnection ws st)"
  by (simp add: handleDisconnection_def sends_ok_same_wire)

lemma sends_ok_step: "sends_ok e st (step parse (e, ev) st)"
  by (cases ev)
     (simp_all add: sends_ok_registerStream sends_ok_unregisterStream sends_ok_handleConnection
        sends_ok_handleDisconnection sends_ok_handleMessage sends_ok_notify)

lemma wire_run_prefix: "\<exists>rest. wire (run parse tr st) = wire st @ rest"
proof (induction tr arbitrary: st)
  case Nil
  show ?case by (simp add: run_def)
next
  case (Cons x tr)
  obtain e ev where x: "x = (e, ev)" by (cases x)
  have "wire (step parse x st) = wire st @ new_frames st (step parse x st)"
    using sends_ok_step [of e st parse ev] x by (simp add: sends_ok_def)
  moreover obtain rest where "wire (run parse tr (step parse x st)) = wire (step parse x st) @ rest"
    using Cons.IH by blast
  ultimately show ?case by (simp add: run_def)
qed

lemma notify_NextEv_eq:
  "is_live st k \<Longrightarrow>
   notify e k (NextEv v) st =
     st\<lparr>wire := wire st @ filter (deliverable e)
        [(sub_ws (sub_objs st ! k), NextMessage (sub_streamId (sub_objs st ! k)) v (now e))]\<rparr>"
  by (simp add: notify_def Let_def sendMessage_eq)

lemma is_live_wire [simp]: "is_live (st\<lparr>wire := w\<rparr>) k = is_live st k"
  by (simp add: is_live_def)

lemma fold_notify_NextEv:
  "is_live st k \<Longrightarrow>
   fold (notify e k) (map NextEv vs) st =
     st\<lparr>wire := wire st @ filter (deliverable e)
        (map (\<lambda>v. (sub_ws (sub_objs st ! k),
                    NextMessage (sub_streamId (sub_objs st ! k)) v (now e))) vs)\<rparr>"
proof (induction vs arbitrary: st)
  case Nil
  show ?case by simp
next
  case (Cons v vs)
  let ?st1 = "notify e k (NextEv v) st"
  have eq1: "?st1 = st\<lparr>wire := wire st @ filter (deliverable e)
        [(sub_ws (sub_objs st ! k), NextMessage (sub_streamId (sub_objs st ! k)) v (now e))]\<rparr>"
    using Cons.prems by (rule notify_NextEv_eq)
  then have live1: "is_live ?st1 k" using Cons.prems by simp
  have "fold (notify e k) (map NextEv (v # vs)) st = fold (notify e k) (map NextEv vs) ?st1"
    by simp
  also have "\<dots> = ?st1\<lparr>wire := wire ?st1 @ filter (deliverable e)
        (map (\<lambda>v. (sub_ws (sub_objs ?st1 ! k),
                    NextMessage (sub_streamId (sub_objs ?st1 ! k)) v (now e))) vs)\<rparr>"
    using live1 by (rule Cons.IH)
  also have "\<dots> = st\<lparr>wire := wire st @ filter (deliverable e)
        (map (\<lambda>v. (sub_ws (sub_objs st ! k),
                    NextMessage (sub_streamId (sub_objs st ! k)) v (now e))) (v # vs))\<rparr>"
    by (subst (1 2 3 4) eq1) simp
  finally show ?case .
qed

section \<open>Invariants of the reachable states\<close>

lemma unsubscribe_fields [simp]:
  "streams (unsubscribe k st) = streams st"
  "connections (unsubscribe k st) = connections st"
  "map_objs (unsubscribe k st) = map_objs st"
  "length (sub_objs (unsubscribe k st)) = length (sub_objs st)"
  by (simp_all add: unsubscribe_def)

lemma map_delete_fields [simp]:
  "streams (map_delete r ws st) = streams st"
  "subscriptions (map_delete r ws st) = subscriptions st"
  "connections (map_delete r ws st) = connections st"
  "sub_objs (map_delete r ws st) = sub_objs st"
  "length (map_objs (map_delete r ws st)) = length (map_objs st)"
  by (simp_all add: map_delete_def)

lemma map_set_fields [simp]:
  "streams (map_set r ws k st) = streams st"
  "subscriptions (map_set r ws k st) = subscriptions st"
  "connections (map_set r ws k st) = connections st"
  "sub_objs (map_set r ws k st) = sub_objs st"
  "length (map_objs (map_set r ws k st)) = length (map_objs st)"
  by (simp_all add: map_set_def)

lemma sendMessage_fields [simp]:
  "streams (sendMessage e ws m st) = streams st"
  "subscriptions (sendMessage e ws m st) = subscriptions st"
  "connections (sendMessage e ws m st) = connections st"
  "map_objs (sendMessage e ws m st) = map_objs st"
  "sub_objs (sendMessage e ws m st) = sub_objs st"
  by (simp_all add: sendMessage_eq)

lemma refs_ok_unsubscribe: "refs_ok st \<Longrightarrow> refs_ok (unsubscribe k st)"
  by (simp add: refs_ok_def)

lemma set_AList_delete_subset: "set (AList.delete k al) \<subseteq> set al"
  by (auto simp: AList.delete_eq)

lemma keys_AList_delete: "fst ` set (AList.delete k al) = fst ` set al - {k}"
  by (auto simp: AList.delete_eq)

lemma set_AList_update_subset: "set (AList.update k v al) \<subseteq> insert (k, v) (set al)"
  by (induction al) auto

lemma in_set_list_update: "m \<in> set (xs[r := y]) \<Longrightarrow> m = y \<or> m \<in> set xs"
  using set_update_subset_insert [of xs r y] by auto

lemma refs_ok_replace:
  assumes "refs_ok st" and "r < length (map_objs st)"
    and "\<And>x. x \<in> set m' \<Longrightarrow> x \<in> set (map_objs st ! r) \<or> snd x < length (sub_objs st)"
  shows "refs_ok (st\<lparr>map_objs := (map_objs st)[r := m']\<rparr>)"
proof -
  have "snd x < length (sub_objs st)" if m: "m \<in> set ((map_objs st)[r := m'])" and x: "x \<in> set m" for m x
  proof -
    from m have "m = m' \<or> m \<in> set (map_objs st)" by (rule in_set_list_update)
    then show ?thesis
    proof
      assume "m = m'"
      with x assms(3) have "x \<in> set (map_objs st ! r) \<or> snd x < length (sub_objs st)" by simp
      moreover have "map_objs st ! r \<in> set (map_objs st)" using assms(2) by simp
      ultimately show ?thesis using assms(1) by (auto simp: refs_ok_def)
    next
      assume "m \<in> set (map_objs st)"
      with x assms(1) show ?thesis by (auto simp: refs_ok_def)
    qed
  qed
  then show ?thesis by (simp add: refs_ok_def)
qed

lemma refs_ok_map_delete: "refs_ok st \<Longrightarrow> refs_ok (map_delete r ws st)"
proof (cases "r < length (map_objs st)")
  case False
  assume "refs_ok st"
  with False show ?thesis by (simp add: map_delete_def)
next
  case True
  assume a: "refs_ok st"
  have "refs_ok (st\<lparr>map_objs := (map_objs st)[r := AList.delete ws (map_objs st ! r)]\<rparr>)"
    using a True
  proof (rule refs_ok_replace)
    fix x assume "x \<in> set (AList.delete ws (map_objs st ! r))"
    then show "x \<in> set (map_objs st ! r) \<or> snd x < length (sub_objs st)"
      using set_AList_delete_subset [of ws "map_objs st ! r"] by auto
  qed
  with True show ?thesis by (simp add: map_delete_def)
qed

lemma refs_ok_map_set:
  "refs_ok st \<Longrightarrow> k < length (sub_objs st) \<Longrightarrow> refs_ok (map_set r ws k st)"
proof (cases "r < length (map_objs st)")
  case False
  assume "refs_ok st"
  with False show ?thesis by (simp add: map_set_def)
next
  case True
  assume a: "refs_ok st" and k: "k < length (sub_objs st)"
  have "refs_ok (st\<lparr>map_objs := (map_objs st)[r := AList.update ws k (map_objs st ! r)]\<rparr>)"
    using a True
  proof (rule refs_ok_replace)
    fix x assume "x \<in> set (AList.update ws k (map_objs st ! r))"
    then show "x \<in> set (map_objs st ! r) \<or> snd x < length (sub_objs st)"
      using set_AList_update_subset [of ws k "map_objs st ! r"] k by auto
  qed
  with True show ?thesis by (simp add: map_set_def)
qed

lemma refs_ok_sendMessage: "refs_ok st \<Longrightarrow> refs_ok (sendMessage e ws m st)"
  by (simp add: refs_ok_def)

lemma notify_fields [simp]:
  "streams (notify e k ev st) = streams st"
  "subscriptions (notify e k ev st) = subscriptions st"
  "connections (notify e k ev st) = connections st"
  "length (sub_objs (notify e k ev st)) = length (sub_objs st)"
  "length (map_objs (notify e k ev st)) = length (map_objs st)"
  by (simp_all add: notify_def Let_def split: notification.splits option.splits)

lemma refs_ok_notify: "refs_ok st \<Longrightarrow> refs_ok (notify e k ev st)"
  by (simp add: notify_def Let_def refs_ok_unsubscribe refs_ok_map_delete refs_ok_sendMessage
      split: notification.splits option.splits)

lemma fold_notify_fields [simp]:
  "streams (fold (notify e k) evs st) = streams st"
  "subscriptions (fold (notify e k) evs st) = subscriptions st"
  "connections (fold (notify e k) evs st) = connections st"
  "length (sub_objs (fold (notify e k) evs st)) = length (sub_objs st)"
  "length (map_objs (fold (notify e k) evs st)) = length (map_objs st)"
  by (induction evs arbitrary: st) simp_all

lemma refs_ok_fold_notify: "refs_ok st \<Longrightarrow> refs_ok (fold (notify e k) evs st)"
  by (induction evs arbitrary: st) (simp_all add: refs_ok_notify)

lemma handleSubscribe_fields [simp]:
  "streams (handleSubscribe e ws sid st) = streams st"
  "subscriptions (handleSubscribe e ws sid st) = subscriptions st"
  "connections (handleSubscribe e ws sid st) = connections st"
  by (simp_all add: handleSubscribe_def observable_subscribe_def Let_def split: option.splits)

lemma refs_ok_push: "refs_ok st \<Longrightarrow> refs_ok (st\<lparr>sub_objs := sub_objs st @ [x]\<rparr>)"
  by (fastforce simp: refs_ok_def)

lemma refs_ok_observable_subscribe:
  assumes "refs_ok st"
  shows "refs_ok (map_set r ws (fst (observable_subscribe e obs ws sid r st))
                    (snd (observable_subscribe e obs ws sid r st)))"
proof -
  let ?st1 = "st\<lparr>sub_objs := sub_objs st @
                 [\<lparr>sub_ws = ws, sub_streamId = sid, sub_streamSubs = r, sub_closed = False\<rparr>]\<rparr>"
  let ?st2 = "fold (notify e (length (sub_objs st))) (emits e obs) ?st1"
  have "refs_ok ?st1" using assms by (rule refs_ok_push)
  then have "refs_ok ?st2" by (rule refs_ok_fold_notify)
  moreover have "length (sub_objs st) < length (sub_objs ?st2)" by simp
  ultimately have "refs_ok (map_set r ws (length (sub_objs st)) ?st2)" by (rule refs_ok_map_set)
  then show ?thesis by (simp add: observable_subscribe_def Let_def)
qed

lemma refs_ok_handleSubscribe: "refs_ok st \<Longrightarrow> refs_ok (handleSubscribe e ws sid st)"
  by (simp add: handleSubscribe_def Let_def split_beta refs_ok_observable_subscribe
      refs_ok_sendMessage split: option.splits)

lemma handleUnsubscribe_fields [simp]:
  "streams (handleUnsubscribe ws sid st) = streams st"
  "subscriptions (handleUnsubscribe ws sid st) = subscriptions st"
  "connections (handleUnsubscribe ws sid st) = connections st"
  by (simp_all add: handleUnsubscribe_def split: option.splits)

lemma refs_ok_handleUnsubscribe: "refs_ok st \<Longrightarrow> refs_ok (handleUnsubscribe ws sid st)"
  by (simp add: handleUnsubscribe_def refs_ok_map_delete refs_ok_unsubscribe split: option.splits)

lemma handleMessage_fields [simp]:
  "streams (handleMessage parse e ws message st) = streams st"
  "subscriptions (handleMessage parse e ws message st) = subscriptions st"
  "connections (handleMessage parse e ws message st) = connections st"
  by (simp_all add: handleMessage_def handleMessage_try_def handleClientMessage_def
      split: sum.splits option.splits bool.splits json.splits)

lemma refs_ok_handleMessage:
  "refs_ok st \<Longrightarrow> refs_ok (handleMessage parse e ws message st)"
  by (simp add: handleMessage_def handleMessage_try_def handleClientMessage_def
      refs_ok_handleSubscribe refs_ok_handleUnsubscribe
      split: sum.splits option.splits bool.splits json.splits)

lemma refs_ok_wire [simp]: "refs_ok (st\<lparr>wire := w\<rparr>) = refs_ok st"
  by (simp add: refs_ok_def)

lemma refs_ok_fold_unsubscribe:
  "refs_ok st \<Longrightarrow> refs_ok (fold (\<lambda>(ws, sub). unsubscribe sub) xs st)"
  by (induction xs arbitrary: st) (auto simp: refs_ok_unsubscribe)

lemma fold_unsubscribe_fields [simp]:
  "streams (fold (\<lambda>(ws, sub). unsubscribe sub) xs st) = streams st"
  "connections (fold (\<lambda>(ws, sub). unsubscribe sub) xs st) = connections st"
  "map_objs (fold (\<lambda>(ws, sub). unsubscribe sub) xs st) = map_objs st"
  "length (sub_objs (fold (\<lambda>(ws, sub). unsubscribe sub) xs st)) = length (sub_objs st)"
  by (induction xs arbitrary: st) auto

lemma disconnect_from_fields [simp]:
  "streams (disconnect_from ws x st) = streams st"
  "subscriptions (disconnect_from ws x st) = subscriptions st"
  "connections (disconnect_from ws x st) = connections st"
  "length (sub_objs (disconnect_from ws x st)) = length (sub_objs st)"
  "length (map_objs (disconnect_from ws x st)) = length (map_objs st)"
  by (cases x; simp add: disconnect_from_def split: option.splits)+

lemma fold_disconnect_from_fields [simp]:
  "streams (fold (disconnect_from ws) xs st) = streams st"
  "subscriptions (fold (disconnect_from ws) xs st) = subscriptions st"
  "connections (fold (disconnect_from ws) xs st) = connections st"
  "length (sub_objs (fold (disconnect_from ws) xs st)) = length (sub_objs st)"
  "length (map_objs (fold (disconnect_from ws) xs st)) = length (map_objs st)"
  by (induction xs arbitrary: st) simp_all

lemma refs_ok_disconnect_from: "refs_ok st \<Longrightarrow> refs_ok (disconnect_from ws x st)"
  by (cases x) (simp add: disconnect_from_def refs_ok_map_delete refs_ok_unsubscribe
      split: option.splits)

lemma refs_ok_fold_disconnect_from:
  "refs_ok st \<Longrightarrow> refs_ok (fold (disconnect_from ws) xs st)"
  by (induction xs arbitrary: st) (simp_all add: refs_ok_disconnect_from)

lemma consistent_step: "consistent st \<Longrightarrow> consistent (step parse x st)"
proof -
  assume c: "consistent st"
  then have keys: "fst ` set (streams st) = fst ` set (subscriptions st)"
    and r: "refs_ok st" and d: "distinct (map fst (subscriptions st))"
    by (simp_all add: consistent_def)
  obtain e ev where x: "x = (e, ev)" by (cases x)
  show ?thesis
  proof (cases ev)
    case (RegisterStream config)
    have "refs_ok (st\<lparr>streams := AList.update (streamId config) config (streams st),
           subscriptions :=
             AList.update (streamId config) (length (map_objs st)) (subscriptions st),
           map_objs := map_objs st @ [[]]\<rparr>)"
      using r by (auto simp: refs_ok_def)
    then show ?thesis
      using keys d x RegisterStream
      by (simp add: consistent_def distinct_update registerStream_def broadcastStreamsList_eq
          dom_update)
  next
    case (UnregisterStream sid)
    show ?thesis
    proof (cases "map_of (subscriptions st) sid")
      case None
      then have "sid \<notin> fst ` set (subscriptions st)" by (simp add: map_of_eq_None_iff)
      then have "fst ` set (subscriptions st) - {sid} = fst ` set (subscriptions st)" by blast
      then show ?thesis
        using keys d r x UnregisterStream None
        by (simp add: consistent_def distinct_delete unregisterStream_def Let_def
            broadcastStreamsList_eq
            keys_AList_delete refs_ok_def)
    next
      case (Some streamSubs)
      have "refs_ok ((fold (\<lambda>(ws, sub). unsubscribe sub) (get_map st streamSubs) st)
              \<lparr>subscriptions := AList.delete sid (subscriptions st),
               streams := AList.delete sid (streams st)\<rparr>)"
        using refs_ok_fold_unsubscribe [OF r, of "get_map st streamSubs"]
        by (simp add: refs_ok_def)
      then show ?thesis
        using keys d x UnregisterStream Some
        by (simp add: consistent_def distinct_delete unregisterStream_def Let_def
            broadcastStreamsList_eq
            keys_AList_delete)
    qed
  next
    case (HandleConnection ws)
    have "refs_ok (st\<lparr>connections := set_add ws (connections st)\<rparr>)"
      using r by (simp add: refs_ok_def)
    then show ?thesis
      using keys d x HandleConnection
      by (simp add: consistent_def handleConnection_def sendStreamsList_def refs_ok_sendMessage)
  next
    case (HandleDisconnection ws)
    have "refs_ok (st\<lparr>connections := removeAll ws (connections st)\<rparr>)"
      using r by (simp add: refs_ok_def)
    then show ?thesis
      using keys d x HandleDisconnection
      by (simp add: consistent_def handleDisconnection_def refs_ok_fold_disconnect_from)
  next
    case (HandleMessage ws message)
    then show ?thesis
      using keys d r x by (simp add: consistent_def refs_ok_handleMessage)
  next
    case (Notify k n)
    then show ?thesis
      using keys d r x by (simp add: consistent_def refs_ok_notify)
  qed
qed

lemma reachable_consistent: "reachable parse st \<Longrightarrow> consistent st"
proof (induction rule: reachable.induct)
  case reachable_init
  show ?case by (simp add: consistent_def refs_ok_def init_def)
next
  case (reachable_step st ev)
  then show ?case by (simp add: consistent_step)
qed

lemma reachable_run: "reachable parse st \<Longrightarrow> reachable parse (run parse tr st)"
  by (induction tr arbitrary: st) (simp_all add: run_def reachable_step)

section \<open>Closing subscriptions\<close>

lemma is_closed_unsubscribe_same: "k < length (sub_objs st) \<Longrightarrow> is_closed (unsubscribe k st) k"
  by (simp add: is_closed_def unsubscribe_def)

lemma is_closed_unsubscribe_mono: "is_closed st k \<Longrightarrow> is_closed (unsubscribe k' st) k"
  by (simp add: is_closed_def unsubscribe_def nth_list_update)

lemma is_closed_map_delete [simp]: "is_closed (map_delete r ws st) k = is_closed st k"
  by (simp add: is_closed_def)

lemma is_closed_fold_unsubscribe_mono:
  "is_closed st k \<Longrightarrow> is_closed (fold (\<lambda>(ws, sub). unsubscribe sub) xs st) k"
  by (induction xs arbitrary: st) (auto simp: is_closed_unsubscribe_mono)

lemma is_closed_fold_unsubscribe:
  "(ws, k) \<in> set xs \<Longrightarrow> k < length (sub_objs st) \<Longrightarrow>
   is_closed (fold (\<lambda>(ws, sub). unsubscribe sub) xs st) k"
proof (induction xs arbitrary: st)
  case Nil
  then show ?case by simp
next
  case (Cons x xs)
  obtain ws' k' where x: "x = (ws', k')" by (cases x)
  show ?case
  proof (cases "k' = k")
    case True
    have "is_closed (unsubscribe k st) k" using Cons.prems(2) by (rule is_closed_unsubscribe_same)
    then show ?thesis using x True by (simp add: is_closed_fold_unsubscribe_mono)
  next
    case False
    with Cons.prems x have "(ws, k) \<in> set xs" by auto
    moreover have "k < length (sub_objs (unsubscribe k' st))" using Cons.prems(2) by simp
    ultimately have "is_closed (fold (\<lambda>(ws, sub). unsubscribe sub) xs (unsubscribe k' st)) k"
      by (rule Cons.IH)
    then show ?thesis using x by simp
  qed
qed

lemma refs_ok_get_map:
  "refs_ok st \<Longrightarrow> (ws, k) \<in> set (get_map st r) \<Longrightarrow> k < length (sub_objs st)"
  by (fastforce simp: refs_ok_def get_map_def split: if_splits)

lemma get_map_unsubscribe [simp]: "get_map (unsubscribe k st) r = get_map st r"
  by (simp add: get_map_def)

lemma get_map_map_delete:
  "get_map (map_delete r0 ws st) r =
     (if r = r0 then AList.delete ws (get_map st r) else get_map st r)"
  by (simp add: get_map_def map_delete_def)

lemma get_map_connections [simp]: "get_map (st\<lparr>connections := cs\<rparr>) r = get_map st r"
  by (simp add: get_map_def)

lemma get_map_disconnect_from_other:
  "r \<noteq> r0 \<Longrightarrow> get_map (disconnect_from ws (sid0, r0) st) r = get_map st r"
  by (simp add: disconnect_from_def get_map_map_delete split: option.splits)

lemma keys_disconnect_from_subset:
  "fst ` set (get_map (disconnect_from ws x st) r) \<subseteq> fst ` set (get_map st r)"
proof -
  obtain sid0 r0 where x: "x = (sid0, r0)" by (cases x)
  show ?thesis
    using dom_delete_subset [of ws "get_map st r"]
    by (auto simp: x disconnect_from_def get_map_map_delete split: option.splits)
qed

lemma not_key_disconnect_from:
  "ws \<notin> fst ` set (get_map (disconnect_from ws (sid0, r0) st) r0)"
  by (simp add: disconnect_from_def get_map_map_delete delete_notin_dom map_of_eq_None_iff
      split: option.splits)

lemma not_key_fold_disconnect_from_mono:
  "ws \<notin> fst ` set (get_map st r) \<Longrightarrow>
   ws \<notin> fst ` set (get_map (fold (disconnect_from ws) xs st) r)"
proof (induction xs arbitrary: st)
  case Nil
  then show ?case by simp
next
  case (Cons x xs)
  have "ws \<notin> fst ` set (get_map (disconnect_from ws x st) r)"
    using Cons.prems keys_disconnect_from_subset [of ws x st r] by blast
  then show ?case using Cons.IH by simp
qed

lemma not_key_fold_disconnect_from:
  "(sid, r) \<in> set xs \<Longrightarrow> ws \<notin> fst ` set (get_map (fold (disconnect_from ws) xs st) r)"
proof (induction xs arbitrary: st)
  case Nil
  then show ?case by simp
next
  case (Cons x xs)
  show ?case
  proof (cases "x = (sid, r)")
    case True
    have "ws \<notin> fst ` set (get_map (disconnect_from ws (sid, r) st) r)"
      by (rule not_key_disconnect_from)
    then show ?thesis using True by (simp add: not_key_fold_disconnect_from_mono)
  next
    case False
    with Cons.prems have "(sid, r) \<in> set xs" by simp
    then show ?thesis using Cons.IH by simp
  qed
qed

lemma is_closed_disconnect_from_mono:
  "is_closed st k \<Longrightarrow> is_closed (disconnect_from ws x st) k"
  by (cases x) (simp add: disconnect_from_def is_closed_unsubscribe_mono split: option.splits)

lemma is_closed_fold_disconnect_from_mono:
  "is_closed st k \<Longrightarrow> is_closed (fold (disconnect_from ws) xs st) k"
  by (induction xs arbitrary: st) (simp_all add: is_closed_disconnect_from_mono)

lemma is_closed_disconnect_from:
  "refs_ok st \<Longrightarrow> map_of (get_map st r0) ws = Some k \<Longrightarrow>
   is_closed (disconnect_from ws (sid0, r0) st) k"
proof -
  assume r: "refs_ok st" and m: "map_of (get_map st r0) ws = Some k"
  from m have "(ws, k) \<in> set (get_map st r0)" by (rule map_of_SomeD)
  with r have "k < length (sub_objs st)" by (rule refs_ok_get_map)
  then show ?thesis using m by (simp add: disconnect_from_def is_closed_unsubscribe_same)
qed

lemma is_closed_fold_disconnect_from:
  "refs_ok st \<Longrightarrow> (sid, r) \<in> set xs \<Longrightarrow> map_of (get_map st r) ws = Some k \<Longrightarrow>
   is_closed (fold (disconnect_from ws) xs st) k"
proof (induction xs arbitrary: st)
  case Nil
  then show ?case by simp
next
  case (Cons x xs)
  obtain sid0 r0 where x: "x = (sid0, r0)" by (cases x)
  show ?case
  proof (cases "r0 = r")
    case True
    have "is_closed (disconnect_from ws (sid0, r0) st) k"
      using Cons.prems(1,3) True by (simp add: is_closed_disconnect_from)
    then show ?thesis using x by (simp add: is_closed_fold_disconnect_from_mono)
  next
    case False
    with Cons.prems(2) x have "(sid, r) \<in> set xs" by simp
    moreover have "refs_ok (disconnect_from ws x st)"
      using Cons.prems(1) by (rule refs_ok_disconnect_from)
    moreover have "map_of (get_map (disconnect_from ws x st) r) ws = Some k"
      using Cons.prems(3) False x by (simp add: get_map_disconnect_from_other)
    ultimately have "is_closed (fold (disconnect_from ws) xs (disconnect_from ws x st)) k"
      by (intro Cons.IH)
    then show ?thesis by simp
  qed
qed

lemma fold_disconnect_from_id:
  "(\<And>sid r. (sid, r) \<in> set xs \<Longrightarrow> map_of (get_map st r) ws = None) \<Longrightarrow>
   fold (disconnect_from ws) xs st = st"
proof (induction xs)
  case Nil
  show ?case by simp
next
  case (Cons x xs)
  obtain sid0 r0 where x: "x = (sid0, r0)" by (cases x)
  have "map_of (get_map st r0) ws = None" using Cons.prems [of sid0 r0] x by simp
  then have "disconnect_from ws x st = st" by (simp add: x disconnect_from_def)
  moreover have "map_of (get_map st r) ws = None" if "(sid, r) \<in> set xs" for sid r
    using Cons.prems [of sid r] that by simp
  then have "fold (disconnect_from ws) xs st = st"
    by (rule Cons.IH)
  ultimately show ?case by simp
qed

section \<open>The protocol codec\<close>

text \<open>
  Claim C9. The classification is a partition of the messages by their discriminator.
  For every message, that is every parsed object whatever its fields,
  \<^verbatim>\<open>isClientMessage\<close> returns true exactly when the field \<^verbatim>\<open>type\<close> of the object is
  the string \<^verbatim>\<open>subscribe\<close> or the string \<^verbatim>\<open>unsubscribe\<close>, \<^verbatim>\<open>isServerMessage\<close>
  returns the negation, and exactly one of the two returns true. A parsed boolean, number,
  string or array has no \<^verbatim>\<open>type\<close> and is classified as a server message. On
  \<^verbatim>\<open>null\<close>, which is not a message, both guards throw.
\<close>

theorem isClientMessage_partition:
  "isClientMessage (JObject kvs) =
     Inr (map_of kvs ''type'' = Some (JString ''subscribe'') \<or>
          map_of kvs ''type'' = Some (JString ''unsubscribe''))
   \<and> isServerMessage (JObject kvs) =
     Inr (\<not> (map_of kvs ''type'' = Some (JString ''subscribe'') \<or>
             map_of kvs ''type'' = Some (JString ''unsubscribe'')))
   \<and> ((isClientMessage (JObject kvs) = Inr True) \<noteq> (isServerMessage (JObject kvs) = Inr True))
   \<and> isClientMessage (JBool b) = Inr False \<and> isServerMessage (JBool b) = Inr True
   \<and> isClientMessage (JNumber n) = Inr False \<and> isServerMessage (JNumber n) = Inr True
   \<and> isClientMessage (JString str) = Inr False \<and> isServerMessage (JString str) = Inr True
   \<and> isClientMessage (JArray xs) = Inr False \<and> isServerMessage (JArray xs) = Inr True
   \<and> isClientMessage JNull = Inl TypeError \<and> isServerMessage JNull = Inl TypeError"
  by (simp add: isClientMessage_def isServerMessage_def)

theorem isClientMessage_partition_witness:
  "isClientMessage (JObject [(''type'', JString ''subscribe''), (''streamId'', JString ''s'')])
     = Inr True
   \<and> isServerMessage (JObject [(''type'', JString ''subscribe''), (''streamId'', JString ''s'')])
     = Inr False
   \<and> isClientMessage (JObject [(''streamId'', JString ''s''), (''type'', JString ''unsubscribe'')])
     = Inr True
   \<and> isServerMessage (JObject [(''streamId'', JString ''s''), (''type'', JString ''unsubscribe'')])
     = Inr False
   \<and> isClientMessage (JObject [(''type'', JString ''next'')]) = Inr False
   \<and> isServerMessage (JObject [(''type'', JString ''next'')]) = Inr True
   \<and> isClientMessage (JObject [(''type'', JNumber 1)]) = Inr False
   \<and> isServerMessage (JObject []) = Inr True"
  using
    isClientMessage_partition
      [where kvs = "[(''type'', JString ''subscribe''), (''streamId'', JString ''s'')]"]
    isClientMessage_partition
      [where kvs = "[(''streamId'', JString ''s''), (''type'', JString ''unsubscribe'')]"]
    isClientMessage_partition [where kvs = "[(''type'', JString ''next'')]"]
    isClientMessage_partition [where kvs = "[(''type'', JNumber 1)]"]
    isClientMessage_partition [where kvs = "[]"]
  by simp

section \<open>Introspection\<close>

text \<open>
  Claim C10. \<^verbatim>\<open>getSubscriptionCount\<close> is a total function of the stream id. For an id
  with no entry in the subscription matrix it returns 0; this is the case for every id
  in a new relay, and for an id that has just been unregistered.
\<close>

theorem getSubscriptionCount_no_entry:
  "(map_of (subscriptions st) sid = None \<longrightarrow> getSubscriptionCount st sid = 0)
   \<and> getSubscriptionCount init sid = 0
   \<and> getSubscriptionCount (unregisterStream e sid st) sid = 0"
  by (simp add: getSubscriptionCount_def init_def unregisterStream_def Let_def
      broadcastStreamsList_eq delete_conv' split: option.splits)

theorem getSubscriptionCount_no_entry_witness:
  "map_of (subscriptions (run sample_parse [(env_open, RegisterStream cfg_s)] init)) ''t'' = None
   \<and> getSubscriptionCount (run sample_parse [(env_open, RegisterStream cfg_s)] init) ''t'' = 0
   \<and> getSubscriptionCount
        (unregisterStream env_open ''s''
           (run sample_parse [(env_open, RegisterStream cfg_s)] init)) ''s'' = 0"
proof -
  have "map_of (subscriptions (run sample_parse [(env_open, RegisterStream cfg_s)] init)) ''t''
        = None"
    by code_simp
  then show ?thesis
    using getSubscriptionCount_no_entry
      [where st = "run sample_parse [(env_open, RegisterStream cfg_s)] init"
         and sid = "''t''"]
      getSubscriptionCount_no_entry
      [where st = "run sample_parse [(env_open, RegisterStream cfg_s)] init"
         and sid = "''s''" and e = env_open]
    by simp
qed

section \<open>Inbound messages\<close>

text \<open>
  Claim C6. \<^verbatim>\<open>handleMessage\<close> on a text that \<^verbatim>\<open>JSON.parse\<close> rejects, or on a text
  whose parsed value is not classified as a client message (a server-typed message; also
  \<^verbatim>\<open>null\<close>, where the classification itself throws), returns the relay unchanged: no
  frame is sent, and streams, subscriptions and connections are as before. The exception
  raised inside the \<^verbatim>\<open>try\<close> block does not leave \<^verbatim>\<open>handleMessage\<close>.
\<close>

theorem handleMessage_rejects:
  "parse message = None
   \<or> (\<exists>parsed. parse message = Some parsed \<and> isClientMessage parsed \<noteq> Inr True) \<Longrightarrow>
     handleMessage parse e ws message st = st
     \<and> (parse message = None \<longrightarrow>
          handleMessage_try parse e ws message st = Inl SyntaxError)
     \<and> (\<forall>parsed. parse message = Some parsed \<and> isServerMessage parsed = Inr True \<longrightarrow>
          handleMessage_try parse e ws message st = Inr st)"
  by (auto simp: handleMessage_def handleMessage_try_def isServerMessage_def
      split: option.splits sum.splits bool.splits)

theorem handleMessage_rejects_witness:
  "sample_parse bad_text = None
   \<and> handleMessage sample_parse env_open 1 bad_text
        (run sample_parse [(env_open, RegisterStream cfg_s)] init)
      = run sample_parse [(env_open, RegisterStream cfg_s)] init
   \<and> handleMessage_try sample_parse env_open 1 bad_text
        (run sample_parse [(env_open, RegisterStream cfg_s)] init)
      = Inl SyntaxError
   \<and> isServerMessage
        (JObject [(''type'', JString ''next''), (''streamId'', JString ''s''),
                  (''value'', JNumber 1)]) = Inr True
   \<and> handleMessage sample_parse env_open 1 next_text
        (run sample_parse [(env_open, RegisterStream cfg_s)] init)
      = run sample_parse [(env_open, RegisterStream cfg_s)] init"
proof -
  let ?next = "JObject [(''type'', JString ''next''), (''streamId'', JString ''s''),
                        (''value'', JNumber 1)]"
  have h1: "sample_parse bad_text = None"
    by (simp add: sample_parse_def bad_text_def subscribe_text_def unsubscribe_text_def
        next_text_def)
  have h2: "sample_parse next_text = Some ?next"
    by (simp add: sample_parse_def subscribe_text_def unsubscribe_text_def next_text_def)
  have h3: "isClientMessage ?next \<noteq> Inr True"
    by (simp add: isClientMessage_def)
  have h4: "isServerMessage ?next = Inr True"
    by (simp add: isServerMessage_def isClientMessage_def)
  show ?thesis
    using h1 h2 h3 h4
      handleMessage_rejects
        [where parse = sample_parse and message = bad_text and e = env_open and ws = 1
           and st = "run sample_parse [(env_open, RegisterStream cfg_s)] init"]
      handleMessage_rejects
        [where parse = sample_parse and message = next_text and e = env_open and ws = 1
           and st = "run sample_parse [(env_open, RegisterStream cfg_s)] init"]
    by simp
qed

section \<open>Outbound messages\<close>

text \<open>
  Claim C7. \<^verbatim>\<open>sendMessage\<close> sends only on a connection whose \<^verbatim>\<open>readyState\<close> is 1.
  On any other connection the frame is dropped and the relay is exactly as before (nothing
  is queued for later); when the send throws, the exception is caught and the relay is
  again exactly as before. A send never touches the stream registry, the subscription
  matrix, the connection set or any subscription, so a dropped or failed \<^verbatim>\<open>next\<close>
  leaves its subscription live and recorded. Every frame that any operation puts on the
  wire has passed this check.
\<close>

theorem sendMessage_discipline:
  "(readyState e ws \<noteq> 1 \<longrightarrow> sendMessage e ws message st = st)
   \<and> (send_throws e ws message \<longrightarrow>
        ws_send e ws message st = Inl SendError \<and> sendMessage e ws message st = st)
   \<and> (readyState e ws = 1 \<and> \<not> send_throws e ws message \<longrightarrow>
        sendMessage e ws message st = st\<lparr>wire := wire st @ [(ws, message)]\<rparr>)
   \<and> streams (sendMessage e ws message st) = streams st
   \<and> subscriptions (sendMessage e ws message st) = subscriptions st
   \<and> connections (sendMessage e ws message st) = connections st
   \<and> map_objs (sendMessage e ws message st) = map_objs st
   \<and> sub_objs (sendMessage e ws message st) = sub_objs st
   \<and> (is_live st k \<and>
       \<not> deliverable e (sub_ws (sub_objs st ! k),
                         NextMessage (sub_streamId (sub_objs st ! k)) v (now e)) \<longrightarrow>
        notify e k (NextEv v) st = st)
   \<and> wire (step parse (e, ev) st) = wire st @ new_frames st (step parse (e, ev) st)
   \<and> list_all (deliverable e) (new_frames st (step parse (e, ev) st))"
proof -
  have "sends_ok e st (step parse (e, ev) st)" by (rule sends_ok_step)
  then show ?thesis
    by (simp add: sends_ok_def sendMessage_eq notify_NextEv_eq deliverable_def ws_send_def)
qed

theorem sendMessage_discipline_witness:
  "readyState env_closed 1 \<noteq> 1
   \<and> is_live (run sample_parse subscribed_run init) 0
   \<and> sendMessage env_closed 1 (CompleteMessage ''s'' 0) (run sample_parse subscribed_run init)
       = run sample_parse subscribed_run init
   \<and> notify env_closed 0 (NextEv (JNumber 5)) (run sample_parse subscribed_run init)
       = run sample_parse subscribed_run init"
proof -
  have h1: "readyState env_closed 1 \<noteq> 1" by (simp add: env_closed_def)
  have h2: "is_live (run sample_parse subscribed_run init) 0" by code_simp
  have h3: "\<not> deliverable env_closed
                (sub_ws (sub_objs (run sample_parse subscribed_run init) ! 0),
                 NextMessage (sub_streamId (sub_objs (run sample_parse subscribed_run init) ! 0))
                   (JNumber 5) (now env_closed))"
    by (simp add: deliverable_def env_closed_def)
  show ?thesis
    using h1 h2 h3
      sendMessage_discipline
        [where e = env_closed and ws = 1 and message = "CompleteMessage ''s'' 0"
           and st = "run sample_parse subscribed_run init" and k = 0 and v = "JNumber 5"]
    by simp
qed

section \<open>Subscribing\<close>

text \<open>
  Claim C8, as the code has it. On a subscribe request for a registered stream and a
  connection that is not recorded for it, the \<^verbatim>\<open>stream-info\<close> frame is handed to
  \<^verbatim>\<open>sendMessage\<close> before the producer is attached. When the connection is open and that
  send does not throw, the \<^verbatim>\<open>stream-info\<close> frame is the first frame put on the wire
  from this call on: every frame of the call and of any later operation, so every
  \<^verbatim>\<open>next\<close> frame of the new subscription, comes after it. When the producer pushes
  values while it is being attached, the frames of the call are the \<^verbatim>\<open>stream-info\<close>
  frame and then the \<^verbatim>\<open>next\<close> frames in the producer's order, each one on the wire
  only if its own send passes; the new subscription is live after the call whether or not
  the \<^verbatim>\<open>stream-info\<close> frame was sent.
\<close>

theorem stream_info_first:
  assumes "map_of (streams st) sid = Some config"
    and "map_of (subscriptions st) sid = Some streamSubs"
    and "ws \<notin> fst ` set (get_map st streamSubs)"
  shows "(deliverable e (ws, StreamInfoMessage sid (name config) (description config) (now e))
            \<longrightarrow>
            (\<exists>rest. wire (run parse tr (handleSubscribe e ws sid st)) =
               wire st
               @ (ws, StreamInfoMessage sid (name config) (description config) (now e))
               # rest))
         \<and> (emits e (observable config) = map NextEv vs \<longrightarrow>
              wire (handleSubscribe e ws sid st) =
                wire st
                @ filter (deliverable e)
                    ((ws, StreamInfoMessage sid (name config) (description config) (now e))
                     # map (\<lambda>v. (ws, NextMessage sid v (now e))) vs)
              \<and> is_live (handleSubscribe e ws sid st) (length (sub_objs st)))"
proof
  let ?info = "StreamInfoMessage sid (name config) (description config) (now e)"
  let ?st1 = "sendMessage e ws ?info st"
  let ?res = "observable_subscribe e (observable config) ws sid streamSubs ?st1"
  have hs: "handleSubscribe e ws sid st = map_set streamSubs ws (fst ?res) (snd ?res)"
    using assms by (simp add: handleSubscribe_def Let_def split_beta)
  have w1: "wire ?st1 = wire st @ filter (deliverable e) [(ws, ?info)]"
    by (simp add: sendMessage_eq)
  have "sends_ok e ?st1 (snd ?res)" by (rule sends_ok_observable_subscribe)
  then have w2: "wire (handleSubscribe e ws sid st) = wire ?st1 @ new_frames ?st1 (snd ?res)"
    by (simp add: hs sends_ok_def)
  obtain rest where "wire (run parse tr (handleSubscribe e ws sid st)) =
      wire (handleSubscribe e ws sid st) @ rest"
    using wire_run_prefix by blast
  then have gen: "wire (run parse tr (handleSubscribe e ws sid st)) =
      wire st @ filter (deliverable e) [(ws, ?info)] @ (new_frames ?st1 (snd ?res) @ rest)"
    by (simp only: w2 w1 append_assoc)
  show "deliverable e (ws, ?info) \<longrightarrow>
          (\<exists>rest. wire (run parse tr (handleSubscribe e ws sid st)) =
             wire st @ (ws, ?info) # rest)"
  proof
    assume "deliverable e (ws, ?info)"
    with gen have "wire (run parse tr (handleSubscribe e ws sid st)) =
      wire st @ (ws, ?info) # (new_frames ?st1 (snd ?res) @ rest)"
      by simp
    then show "\<exists>rest. wire (run parse tr (handleSubscribe e ws sid st)) =
             wire st @ (ws, ?info) # rest" ..
  qed
  show "emits e (observable config) = map NextEv vs \<longrightarrow>
              wire (handleSubscribe e ws sid st) =
                wire st @ filter (deliverable e)
                    ((ws, ?info) # map (\<lambda>v. (ws, NextMessage sid v (now e))) vs)
              \<and> is_live (handleSubscribe e ws sid st) (length (sub_objs st))"
  proof
    assume em: "emits e (observable config) = map NextEv vs"
    let ?k = "length (sub_objs ?st1)"
    let ?st2 = "?st1\<lparr>sub_objs := sub_objs ?st1 @
                 [\<lparr>sub_ws = ws, sub_streamId = sid, sub_streamSubs = streamSubs,
                   sub_closed = False\<rparr>]\<rparr>"
    have live: "is_live ?st2 ?k" by (simp add: is_live_def)
    have "snd ?res = fold (notify e ?k) (map NextEv vs) ?st2"
      by (simp add: observable_subscribe_def Let_def em)
    also have "\<dots> = ?st2\<lparr>wire := wire ?st2 @ filter (deliverable e)
        (map (\<lambda>v. (sub_ws (sub_objs ?st2 ! ?k),
                    NextMessage (sub_streamId (sub_objs ?st2 ! ?k)) v (now e))) vs)\<rparr>"
      using live by (rule fold_notify_NextEv)
    finally have res: "snd ?res = ?st2\<lparr>wire := wire ?st2 @ filter (deliverable e)
        (map (\<lambda>v. (sub_ws (sub_objs ?st2 ! ?k),
                    NextMessage (sub_streamId (sub_objs ?st2 ! ?k)) v (now e))) vs)\<rparr>" .
    then have "wire (snd ?res) = wire st @ filter (deliverable e)
                    ((ws, ?info) # map (\<lambda>v. (ws, NextMessage sid v (now e))) vs)"
      by (simp add: sendMessage_eq)
    then have w: "wire (handleSubscribe e ws sid st) =
                wire st @ filter (deliverable e)
                    ((ws, ?info) # map (\<lambda>v. (ws, NextMessage sid v (now e))) vs)"
      by (simp add: hs)
    have "sub_objs (handleSubscribe e ws sid st) = sub_objs ?st2"
      by (simp add: hs res)
    then have "is_live (handleSubscribe e ws sid st) (length (sub_objs st))"
      by (simp add: is_live_def)
    with w show "wire (handleSubscribe e ws sid st) =
                wire st @ filter (deliverable e)
                    ((ws, ?info) # map (\<lambda>v. (ws, NextMessage sid v (now e))) vs)
              \<and> is_live (handleSubscribe e ws sid st) (length (sub_objs st))" ..
  qed
qed

theorem stream_info_first_witness:
  "map_of (streams (run sample_parse [(env_open, RegisterStream cfg_s)] init)) ''s'' = Some cfg_s
   \<and> map_of (subscriptions (run sample_parse [(env_open, RegisterStream cfg_s)] init)) ''s''
       = Some 0
   \<and> 1 \<notin> fst ` set (get_map (run sample_parse [(env_open, RegisterStream cfg_s)] init) 0)
   \<and> deliverable env_values (1, StreamInfoMessage ''s'' ''S'' None 0)
   \<and> wire (handleSubscribe env_values 1 ''s''
              (run sample_parse [(env_open, RegisterStream cfg_s)] init))
       = [(1, StreamInfoMessage ''s'' ''S'' None 0),
          (1, NextMessage ''s'' (JNumber 1) 0),
          (1, NextMessage ''s'' (JNumber 2) 0)]
   \<and> is_live (handleSubscribe env_values 1 ''s''
                 (run sample_parse [(env_open, RegisterStream cfg_s)] init)) 0"
proof -
  let ?st = "run sample_parse [(env_open, RegisterStream cfg_s)] init"
  have h1: "map_of (streams ?st) ''s'' = Some cfg_s" by code_simp
  have h2: "map_of (subscriptions ?st) ''s'' = Some 0" by code_simp
  have h3: "1 \<notin> fst ` set (get_map ?st 0)" by code_simp
  have h4: "deliverable env_values (1, StreamInfoMessage ''s'' ''S'' None 0)"
    by (simp add: deliverable_def env_values_def)
  have w: "wire ?st = []" by code_simp
  have n: "length (sub_objs ?st) = 0" by code_simp
  have em: "emits env_values (observable cfg_s) = map NextEv [JNumber 1, JNumber 2]"
    by (simp add: env_values_def)
  show ?thesis
    using h1 h2 h3 h4 w n em
      stream_info_first [OF h1 h2 h3, where e = env_values and vs = "[JNumber 1, JNumber 2]"]
    by (simp add: deliverable_def env_values_def cfg_s_def)
qed

text \<open>
  Claim C8 as stated puts the \<^verbatim>\<open>stream-info\<close> frame before any \<^verbatim>\<open>next\<close> frame of
  every successful subscribe. Connection 1 subscribes to stream \<^verbatim>\<open>s\<close> while its
  \<^verbatim>\<open>readyState\<close> is 0: the \<^verbatim>\<open>stream-info\<close> frame is dropped and the subscription is
  made all the same. Once the connection is open, a value of the producer goes out as a
  \<^verbatim>\<open>next\<close> frame, the only frame the connection ever received.
\<close>

theorem stream_info_dropped_counterexample:
  "getSubscriptionCount
     (run sample_parse
        [(env_open, RegisterStream cfg_s), (env_connecting, HandleMessage 1 subscribe_text)]
        init) ''s'' = 1
   \<and> wire
        (run sample_parse
           [(env_open, RegisterStream cfg_s), (env_connecting, HandleMessage 1 subscribe_text)]
           init) = []
   \<and> wire
        (run sample_parse
           [(env_open, RegisterStream cfg_s), (env_connecting, HandleMessage 1 subscribe_text),
            (env_open, Notify 0 (NextEv (JNumber 5)))]
           init) = [(1, NextMessage ''s'' (JNumber 5) 0)]"
  by code_simp

section \<open>Registering a stream id again\<close>

text \<open>
  Claim C1, evaluated on the code. Stream \<^verbatim>\<open>s\<close> is registered, connection 1 connects and
  subscribes, and \<^verbatim>\<open>s\<close> is registered again. The pair then has one live subscription,
  the one made before. A further subscribe request for the same pair is not recognised
  as a duplicate: it attaches the producer a second time, so the pair has two live
  subscriptions, and it sends a \<^verbatim>\<open>stream-info\<close> frame.
\<close>

theorem resubscribe_after_reregister:
  "live_subs (run sample_parse reregistered_run init) ''s'' 1 = [0]
   \<and> live_subs (handleMessage sample_parse env_open 1 subscribe_text
                   (run sample_parse reregistered_run init)) ''s'' 1 = [0, 1]
   \<and> new_frames (run sample_parse reregistered_run init)
        (handleMessage sample_parse env_open 1 subscribe_text
           (run sample_parse reregistered_run init))
       = [(1, StreamInfoMessage ''s'' ''S'' None 0)]"
  by code_simp

text \<open>
  Claim C2, evaluated on the code. With connection 1 subscribed to stream \<^verbatim>\<open>s\<close>,
  registering \<^verbatim>\<open>s\<close> again takes \<^verbatim>\<open>getSubscriptionCount\<close> from 1 to 0. The
  subscription made before stays live, and neither an unsubscribe request nor the
  disconnection of connection 1 closes it: a value the producer pushes afterwards is
  still sent to connection 1.
\<close>

theorem reregister_forgets_subscriptions:
  "getSubscriptionCount (run sample_parse subscribed_run init) ''s'' = 1
   \<and> getSubscriptionCount
        (registerStream env_open cfg_s (run sample_parse subscribed_run init)) ''s'' = 0
   \<and> live_subs (run sample_parse reregistered_run init) ''s'' 1 = [0]
   \<and> live_subs
        (handleDisconnection 1
           (handleMessage sample_parse env_open 1 unsubscribe_text
              (run sample_parse reregistered_run init))) ''s'' 1 = [0]
   \<and> new_frames
        (handleDisconnection 1
           (handleMessage sample_parse env_open 1 unsubscribe_text
              (run sample_parse reregistered_run init)))
        (notify env_open 0 (NextEv (JNumber 5))
           (handleDisconnection 1
              (handleMessage sample_parse env_open 1 unsubscribe_text
                 (run sample_parse reregistered_run init))))
       = [(1, NextMessage ''s'' (JNumber 5) 0)]"
  by code_simp

section \<open>Terminal notifications\<close>

text \<open>
  Claim C3, evaluated on the code. Connection 1 subscribes to a stream whose producer
  pushes one value and completes before \<^verbatim>\<open>subscribe\<close> returns. The relay sends the
  \<^verbatim>\<open>stream-info\<close>, \<^verbatim>\<open>next\<close> and \<^verbatim>\<open>complete\<close> frames, the handler of the completion
  deletes an entry that is not there yet, and the entry is recorded afterwards: the
  connection is still counted by \<^verbatim>\<open>getSubscriptionCount\<close> after the \<^verbatim>\<open>complete\<close> frame.
\<close>

theorem synchronous_complete_stays_counted:
  "wire (run sample_parse
           [(env_open, RegisterStream cfg_s), (env_sync, HandleMessage 1 subscribe_text)] init)
     = [(1, StreamInfoMessage ''s'' ''S'' None 0),
        (1, NextMessage ''s'' (JNumber 1) 0),
        (1, CompleteMessage ''s'' 0)]
   \<and> getSubscriptionCount
        (run sample_parse
           [(env_open, RegisterStream cfg_s), (env_sync, HandleMessage 1 subscribe_text)] init)
        ''s'' = 1
   \<and> 1 \<in> subscribed
        (run sample_parse
           [(env_open, RegisterStream cfg_s), (env_sync, HandleMessage 1 subscribe_text)] init)
        ''s''"
  by code_simp

section \<open>Unregistering a stream\<close>

text \<open>
  Claim C4, as the code has it. In a state the relay can reach, \<^verbatim>\<open>unregisterStream\<close>
  with an id that is not registered cancels no subscription and leaves the registry, the
  matrix, the connection set and both object stores as they are, but it still broadcasts:
  the only change is that the unchanged stream list goes on the wire once for every
  connection of the set that is open. With a registered id it closes every subscription
  recorded in the stream's matrix entry, removes the stream from the matrix and from the
  registry, leaves the connection set alone, and broadcasts the stream list without that
  stream to every open connection.
\<close>

theorem unregisterStream_effect:
  assumes "reachable parse st"
  shows
    "(sid \<notin> fst ` set (streams st) \<longrightarrow>
        unregisterStream e sid st = st\<lparr>wire := wire st @ broadcast_frames e st\<rparr>)
     \<and> (sid \<in> fst ` set (streams st) \<longrightarrow>
          streams (unregisterStream e sid st) = AList.delete sid (streams st)
          \<and> subscriptions (unregisterStream e sid st) = AList.delete sid (subscriptions st)
          \<and> sid \<notin> fst ` set (streams (unregisterStream e sid st))
          \<and> sid \<notin> fst ` set (subscriptions (unregisterStream e sid st))
          \<and> connections (unregisterStream e sid st) = connections st
          \<and> (\<forall>streamSubs ws k.
                map_of (subscriptions st) sid = Some streamSubs
                \<and> (ws, k) \<in> set (get_map st streamSubs) \<longrightarrow>
                is_closed (unregisterStream e sid st) k)
          \<and> wire (unregisterStream e sid st) =
              wire st @ broadcast_frames e (st\<lparr>streams := AList.delete sid (streams st)\<rparr>))"
proof -
  from assms have c: "consistent st" by (rule reachable_consistent)
  then have keys: "fst ` set (streams st) = fst ` set (subscriptions st)" and r: "refs_ok st"
    by (simp_all add: consistent_def)
  show ?thesis
  proof (cases "sid \<in> fst ` set (streams st)")
    case False
    then have "map_of (subscriptions st) sid = None"
      using keys by (simp add: map_of_eq_None_iff)
    then have "unregisterStream e sid st = st\<lparr>wire := wire st @ broadcast_frames e st\<rparr>"
      using False
      by (simp add: unregisterStream_def Let_def broadcastStreamsList_eq broadcast_frames_def)
    with False show ?thesis by simp
  next
    case True
    then obtain streamSubs where some: "map_of (subscriptions st) sid = Some streamSubs"
      using keys by (metis map_of_eq_None_iff not_Some_eq)
    let ?st1 = "fold (\<lambda>(ws, sub). unsubscribe sub) (get_map st streamSubs) st"
    have eq: "unregisterStream e sid st =
         broadcastStreamsList e
          (?st1\<lparr>subscriptions := AList.delete sid (subscriptions st),
                 streams := AList.delete sid (streams st)\<rparr>)"
      using some by (simp add: unregisterStream_def Let_def)
    have closed: "is_closed (unregisterStream e sid st) k"
      if "(ws, k) \<in> set (get_map st streamSubs)" for ws k
    proof -
      have "k < length (sub_objs st)" using r that by (rule refs_ok_get_map)
      with that have "is_closed ?st1 k" by (rule is_closed_fold_unsubscribe)
      then show ?thesis by (simp add: eq broadcastStreamsList_eq is_closed_def)
    qed
    have w: "wire (unregisterStream e sid st) =
              wire st @ broadcast_frames e (st\<lparr>streams := AList.delete sid (streams st)\<rparr>)"
      by (simp add: eq broadcastStreamsList_eq broadcast_frames_def streams_list_def)
    have "streams (unregisterStream e sid st) = AList.delete sid (streams st)"
      "subscriptions (unregisterStream e sid st) = AList.delete sid (subscriptions st)"
      "connections (unregisterStream e sid st) = connections st"
      by (simp_all add: eq broadcastStreamsList_eq)
    with True some closed w show ?thesis
      by (simp add: delete_notin_dom)
  qed
qed

theorem unregisterStream_effect_witness:
  "reachable sample_parse (run sample_parse subscribed_run init)
   \<and> ''s'' \<in> fst ` set (streams (run sample_parse subscribed_run init))
   \<and> ''t'' \<notin> fst ` set (streams (run sample_parse subscribed_run init))
   \<and> streams (unregisterStream env_open ''s'' (run sample_parse subscribed_run init)) = []
   \<and> subscriptions (unregisterStream env_open ''s'' (run sample_parse subscribed_run init)) = []
   \<and> is_closed (unregisterStream env_open ''s'' (run sample_parse subscribed_run init)) 0
   \<and> wire (unregisterStream env_open ''s'' (run sample_parse subscribed_run init))
       = wire (run sample_parse subscribed_run init) @ [(1, StreamsListMessage 0 [])]
   \<and> unregisterStream env_open ''t'' (run sample_parse subscribed_run init)
       = (run sample_parse subscribed_run init)
           \<lparr>wire := wire (run sample_parse subscribed_run init)
                     @ [(1, StreamsListMessage 0 [(''s'', ''S'', None, True)])]\<rparr>"
proof -
  let ?st = "run sample_parse subscribed_run init"
  have reach: "reachable sample_parse ?st"
    by (rule reachable_run) (rule reachable_init)
  have h1: "''s'' \<in> fst ` set (streams ?st)" by code_simp
  have h2: "''t'' \<notin> fst ` set (streams ?st)" by code_simp
  have h3: "map_of (subscriptions ?st) ''s'' = Some 0" by code_simp
  have h4: "(1, 0) \<in> set (get_map ?st 0)" by code_simp
  have h5: "AList.delete ''s'' (streams ?st) = []" by code_simp
  have h6: "AList.delete ''s'' (subscriptions ?st) = []" by code_simp
  have h7: "broadcast_frames env_open (?st\<lparr>streams := []\<rparr>) = [(1, StreamsListMessage 0 [])]"
    by code_simp
  have h8: "broadcast_frames env_open ?st
            = [(1, StreamsListMessage 0 [(''s'', ''S'', None, True)])]"
    by code_simp
  from unregisterStream_effect [OF reach, where sid = "''s''" and e = env_open] h1 h3 h4
  have a: "streams (unregisterStream env_open ''s'' ?st) = AList.delete ''s'' (streams ?st)"
    "subscriptions (unregisterStream env_open ''s'' ?st) = AList.delete ''s'' (subscriptions ?st)"
    "is_closed (unregisterStream env_open ''s'' ?st) 0"
    "wire (unregisterStream env_open ''s'' ?st) =
       wire ?st @ broadcast_frames env_open (?st\<lparr>streams := AList.delete ''s'' (streams ?st)\<rparr>)"
    by blast+
  from unregisterStream_effect [OF reach, where sid = "''t''" and e = env_open] h2
  have b: "unregisterStream env_open ''t'' ?st = ?st\<lparr>wire := wire ?st @ broadcast_frames env_open ?st\<rparr>"
    by blast
  show ?thesis
    using reach h1 h2 a b by (simp only: h5 h6 h7 h8 simp_thms)
qed

text \<open>
  Claim C4 as stated has no wire message for an unknown id. A relay with one open
  connection and no stream, asked to unregister the unknown id \<^verbatim>\<open>ghost\<close>, sends that
  connection a stream list.
\<close>

theorem unregisterStream_unknown_counterexample:
  "''ghost'' \<notin> fst ` set (streams (run sample_parse [(env_open, HandleConnection 1)] init))
   \<and> new_frames (run sample_parse [(env_open, HandleConnection 1)] init)
        (unregisterStream env_open ''ghost''
           (run sample_parse [(env_open, HandleConnection 1)] init))
       = [(1, StreamsListMessage 0 [])]"
  by code_simp

section \<open>Disconnection\<close>

text \<open>
  Claim C5, as the code has it. In a state the relay can reach, after
  \<^verbatim>\<open>handleDisconnection\<close> the connection is not in the connection set, no matrix entry
  records it (so \<^verbatim>\<open>getSubscriptionCount\<close> counts it for no stream), and every
  subscription that the matrix recorded for it has been closed. For a connection that is
  neither in the connection set nor recorded in any matrix entry the call changes nothing.
\<close>

theorem handleDisconnection_cleanup:
  assumes "reachable parse st"
  shows
    "ws \<notin> set (connections (handleDisconnection ws st))
     \<and> (\<forall>sid. ws \<notin> subscribed (handleDisconnection ws st) sid)
     \<and> (\<forall>sid streamSubs k.
           map_of (subscriptions st) sid = Some streamSubs
           \<and> map_of (get_map st streamSubs) ws = Some k \<longrightarrow>
           is_closed (handleDisconnection ws st) k)
     \<and> (ws \<notin> set (connections st) \<and> (\<forall>sid. ws \<notin> subscribed st sid) \<longrightarrow>
          handleDisconnection ws st = st)"
proof -
  from assms have c: "consistent st" by (rule reachable_consistent)
  then have r: "refs_ok st" and d: "distinct (map fst (subscriptions st))"
    by (simp_all add: consistent_def)
  let ?st0 = "st\<lparr>connections := removeAll ws (connections st)\<rparr>"
  have r0: "refs_ok ?st0" using r by (simp add: refs_ok_def)
  have 1: "ws \<notin> set (connections (handleDisconnection ws st))"
    by (simp add: handleDisconnection_def)
  have 2: "ws \<notin> subscribed (handleDisconnection ws st) sid" for sid
  proof (cases "map_of (subscriptions st) sid")
    case None
    then show ?thesis by (simp add: subscribed_def handleDisconnection_def)
  next
    case (Some streamSubs)
    then have "(sid, streamSubs) \<in> set (subscriptions ?st0)" by (simp add: map_of_SomeD)
    then have "ws \<notin> fst ` set (get_map (fold (disconnect_from ws) (subscriptions ?st0) ?st0)
                                  streamSubs)"
      by (rule not_key_fold_disconnect_from)
    then show ?thesis using Some by (simp add: subscribed_def handleDisconnection_def)
  qed
  have 3: "is_closed (handleDisconnection ws st) k"
    if "map_of (subscriptions st) sid = Some streamSubs"
      and "map_of (get_map st streamSubs) ws = Some k" for sid streamSubs k
  proof -
    from that(1) have "(sid, streamSubs) \<in> set (subscriptions st)" by (rule map_of_SomeD)
    moreover have "map_of (get_map ?st0 streamSubs) ws = Some k" using that(2) by simp
    ultimately have "is_closed (fold (disconnect_from ws) (subscriptions st) ?st0) k"
      using r0 by (intro is_closed_fold_disconnect_from)
    then show ?thesis by (simp add: handleDisconnection_def)
  qed
  have 4: "handleDisconnection ws st = st"
    if nc: "ws \<notin> set (connections st)" and ns: "\<forall>sid. ws \<notin> subscribed st sid"
  proof -
    have "map_of (get_map st streamSubs) ws = None"
      if "(sid, streamSubs) \<in> set (subscriptions st)" for sid streamSubs
    proof -
      from that d have "map_of (subscriptions st) sid = Some streamSubs" by simp
      with ns have "ws \<notin> fst ` set (get_map st streamSubs)"
        by (auto simp: subscribed_def split: option.splits)
      then show ?thesis by (simp add: map_of_eq_None_iff)
    qed
    then have "fold (disconnect_from ws) (subscriptions st) st = st"
      by (rule fold_disconnect_from_id)
    then show ?thesis using nc by (simp add: handleDisconnection_def)
  qed
  from 1 2 3 4 show ?thesis by blast
qed

theorem handleDisconnection_cleanup_witness:
  "reachable sample_parse (run sample_parse subscribed_run init)
   \<and> map_of (subscriptions (run sample_parse subscribed_run init)) ''s'' = Some 0
   \<and> map_of (get_map (run sample_parse subscribed_run init) 0) 1 = Some 0
   \<and> 1 \<notin> set (connections (handleDisconnection 1 (run sample_parse subscribed_run init)))
   \<and> 1 \<notin> subscribed (handleDisconnection 1 (run sample_parse subscribed_run init)) ''s''
   \<and> is_closed (handleDisconnection 1 (run sample_parse subscribed_run init)) 0
   \<and> 2 \<notin> set (connections (run sample_parse subscribed_run init))
   \<and> handleDisconnection 2 (run sample_parse subscribed_run init)
       = run sample_parse subscribed_run init"
proof -
  let ?st = "run sample_parse subscribed_run init"
  have reach: "reachable sample_parse ?st"
    by (rule reachable_run) (rule reachable_init)
  have h1: "map_of (subscriptions ?st) ''s'' = Some 0" by code_simp
  have h2: "map_of (get_map ?st 0) 1 = Some 0" by code_simp
  have h3: "2 \<notin> set (connections ?st)" by code_simp
  have s: "subscriptions ?st = [(''s'', 0)]" by code_simp
  have g: "get_map ?st 0 = [(1, 0)]" by code_simp
  have h4: "\<forall>sid. 2 \<notin> subscribed ?st sid"
    by (simp add: subscribed_def s g)
  from handleDisconnection_cleanup [OF reach, where ws = 1] h1 h2
  have a: "1 \<notin> set (connections (handleDisconnection 1 ?st))"
    "1 \<notin> subscribed (handleDisconnection 1 ?st) ''s''"
    "is_closed (handleDisconnection 1 ?st) 0"
    by blast+
  from handleDisconnection_cleanup [OF reach, where ws = 2] h3 h4
  have b: "handleDisconnection 2 ?st = ?st"
    by blast
  show ?thesis
    using reach h1 h2 h3 a b by (simp only: simp_thms)
qed

text \<open>
  Claim C5 as stated makes the call a no-op for every connection that was never
  registered. Connection 7 is never passed to \<^verbatim>\<open>handleConnection\<close>, but its subscribe
  request is served; disconnecting it then removes its subscription, taking the count of
  the stream from 1 to 0.
\<close>

theorem handleDisconnection_unregistered_counterexample:
  "7 \<notin> set (connections
       (run sample_parse
          [(env_open, RegisterStream cfg_s), (env_open, HandleMessage 7 subscribe_text)] init))
   \<and> getSubscriptionCount
        (run sample_parse
           [(env_open, RegisterStream cfg_s), (env_open, HandleMessage 7 subscribe_text)] init)
        ''s'' = 1
   \<and> getSubscriptionCount
        (handleDisconnection 7
           (run sample_parse
              [(env_open, RegisterStream cfg_s), (env_open, HandleMessage 7 subscribe_text)]
              init))
        ''s'' = 0
   \<and> handleDisconnection 7
        (run sample_parse
           [(env_open, RegisterStream cfg_s), (env_open, HandleMessage 7 subscribe_text)] init)
       \<noteq> run sample_parse
           [(env_open, RegisterStream cfg_s), (env_open, HandleMessage 7 subscribe_text)] init"
proof -
  let ?st = "run sample_parse
           [(env_open, RegisterStream cfg_s), (env_open, HandleMessage 7 subscribe_text)] init"
  have h1: "7 \<notin> set (connections ?st)" by code_simp
  have h2: "getSubscriptionCount ?st ''s'' = 1" by code_simp
  have h3: "getSubscriptionCount (handleDisconnection 7 ?st) ''s'' = 0" by code_simp
  from h2 h3 have "handleDisconnection 7 ?st \<noteq> ?st" by auto
  with h1 h2 h3 show ?thesis by (simp only: simp_thms)
qed

end
